theory Spec2Isabelle
  imports Complex_Main "HOL-Library.Char_ord" "HOL-Library.AList"
begin

section \<open>Text and character classes\<close>

text \<open>
  A Python \<^verbatim>\<open>str\<close> is a sequence of code points. It is modelled as a \<^typ>\<open>string\<close>
  whose characters are the code points 0 to 255, so \<^const>\<open>length\<close> is Python's
  \<^verbatim>\<open>len\<close>. The classes below are the ones the patterns of \<^verbatim>\<open>pii.py\<close> use, read as
  Python's \<^verbatim>\<open>re\<close> reads them for a \<^verbatim>\<open>str\<close> pattern: a range such as \<^verbatim>\<open>[0-9]\<close> is a
  range of code points, while \<^verbatim>\<open>\s\<close> and the word characters behind \<^verbatim>\<open>\b\<close> follow
  \<^verbatim>\<open>str.isspace\<close> and \<^verbatim>\<open>str.isalnum\<close> (plus the underscore) on that range of code points.
\<close>

definition digit :: "char \<Rightarrow> bool" where
  "digit c = (CHR ''0'' \<le> c \<and> c \<le> CHR ''9'')"

definition lower :: "char \<Rightarrow> bool" where
  "lower c = (CHR ''a'' \<le> c \<and> c \<le> CHR ''z'')"

definition upper :: "char \<Rightarrow> bool" where
  "upper c = (CHR ''A'' \<le> c \<and> c \<le> CHR ''Z'')"

definition alpha :: "char \<Rightarrow> bool" where
  "alpha c = (lower c \<or> upper c)"

definition hexdigit :: "char \<Rightarrow> bool" where
  "hexdigit c = (digit c \<or> CHR ''a'' \<le> c \<and> c \<le> CHR ''f'' \<or> CHR ''A'' \<le> c \<and> c \<le> CHR ''F'')"

definition is_space :: "char \<Rightarrow> bool" where
  "is_space c = (CHR 0x09 \<le> c \<and> c \<le> CHR 0x0D \<or> CHR 0x1C \<le> c \<and> c \<le> CHR 0x20
     \<or> c = CHR 0x85 \<or> c = CHR 0xA0)"

definition is_word :: "char \<Rightarrow> bool" where
  "is_word c = (alpha c \<or> digit c \<or> c = CHR ''_''
     \<or> c = CHR 0xAA \<or> c = CHR 0xB2 \<or> c = CHR 0xB3 \<or> c = CHR 0xB5 \<or> c = CHR 0xB9
     \<or> c = CHR 0xBA \<or> c = CHR 0xBC \<or> c = CHR 0xBD \<or> c = CHR 0xBE
     \<or> CHR 0xC0 \<le> c \<and> c \<le> CHR 0xD6 \<or> CHR 0xD8 \<le> c \<and> c \<le> CHR 0xF6 \<or> CHR 0xF8 \<le> c)"

text \<open>\<^verbatim>\<open>[a-zA-Z0-9._%+-]\<close>, \<^verbatim>\<open>[a-zA-Z0-9.-]\<close>, \<^verbatim>\<open>[-.\s]\<close>, \<^verbatim>\<open>[-\s]\<close>, \<^verbatim>\<open>[1-5]\<close> and \<^verbatim>\<open>[47]\<close>.\<close>

definition email_local :: "char \<Rightarrow> bool" where
  "email_local c = (alpha c \<or> digit c \<or> c = CHR ''.'' \<or> c = CHR ''_'' \<or> c = CHR ''%''
     \<or> c = CHR ''+'' \<or> c = CHR ''-'')"

definition email_domain :: "char \<Rightarrow> bool" where
  "email_domain c = (alpha c \<or> digit c \<or> c = CHR ''.'' \<or> c = CHR ''-'')"

definition phone_sep :: "char \<Rightarrow> bool" where
  "phone_sep c = (c = CHR ''-'' \<or> c = CHR ''.'' \<or> is_space c)"

definition dash_space :: "char \<Rightarrow> bool" where
  "dash_space c = (c = CHR ''-'' \<or> is_space c)"

definition one_to_five :: "char \<Rightarrow> bool" where
  "one_to_five c = (CHR ''1'' \<le> c \<and> c \<le> CHR ''5'')"

definition four_or_seven :: "char \<Rightarrow> bool" where
  "four_or_seven c = (c = CHR ''4'' \<or> c = CHR ''7'')"

section \<open>Regular expressions as Python's \<^verbatim>\<open>re\<close> runs them\<close>

text \<open>
  The patterns of \<^verbatim>\<open>PII_PATTERNS\<close> are built from character classes and literals,
  concatenation, alternation, the word boundary \<^verbatim>\<open>\b\<close>, and greedy repetition. The only
  unbounded repetitions (\<^verbatim>\<open>+\<close> and \<^verbatim>\<open>{2,}\<close>) are over a character class, which is what
  \<open>Star\<close> holds. All groups are non-capturing.
\<close>

datatype regex =
    Chr "char \<Rightarrow> bool"
  | Eps
  | WordB
  | Seq regex regex
  | Alt regex regex
  | Star "char \<Rightarrow> bool"

text \<open>
  A position in the text is the rest of the text together with one bit of the text before
  it: whether the previous character is a word character (false at the start of the text),
  which is all that \<^verbatim>\<open>\b\<close> reads of it.
\<close>

fun next_is_word :: "string \<Rightarrow> bool" where
  "next_is_word [] = False"
| "next_is_word (c # cs) = is_word c"

text \<open>
  The positions a greedy \<^verbatim>\<open>[class]*\<close> can end at, the longest first, which is the order in
  which the backtracking matcher tries them.
\<close>

fun star_ends :: "(char \<Rightarrow> bool) \<Rightarrow> bool \<Rightarrow> string \<Rightarrow> (bool \<times> string) list" where
  "star_ends P pw [] = [(pw, [])]"
| "star_ends P pw (c # cs) =
     (if P c then star_ends P (is_word c) cs @ [(pw, c # cs)] else [(pw, c # cs)])"

text \<open>
  \<open>rmatch r pw s\<close> lists every position at which a match of \<open>r\<close> starting at the position
  \<open>(pw, s)\<close> can end, in the order in which the backtracking matcher finds them: the left
  branch of an alternation before the right one, a longer repetition before a shorter one.
  The match that \<^verbatim>\<open>re\<close> reports at a position is the first of the list.
\<close>

fun rmatch :: "regex \<Rightarrow> bool \<Rightarrow> string \<Rightarrow> (bool \<times> string) list" where
  "rmatch (Chr P) pw [] = []"
| "rmatch (Chr P) pw (c # cs) = (if P c then [(is_word c, cs)] else [])"
| "rmatch Eps pw s = [(pw, s)]"
| "rmatch WordB pw s = (if pw \<noteq> next_is_word s then [(pw, s)] else [])"
| "rmatch (Seq r1 r2) pw s = concat (map (\<lambda>(pw', s'). rmatch r2 pw' s') (rmatch r1 pw s))"
| "rmatch (Alt r1 r2) pw s = rmatch r1 pw s @ rmatch r2 pw s"
| "rmatch (Star P) pw s = star_ends P pw s"

text \<open>The derived forms: a literal, a sequence, \<^verbatim>\<open>r?\<close>, \<^verbatim>\<open>r{n}\<close>, \<^verbatim>\<open>r{n,m}\<close>, \<^verbatim>\<open>[class]+\<close> and \<^verbatim>\<open>[class]{n,}\<close>.\<close>

definition lit :: "char \<Rightarrow> regex" where
  "lit a = Chr (\<lambda>c. c = a)"

fun seq :: "regex list \<Rightarrow> regex" where
  "seq [] = Eps"
| "seq [r] = r"
| "seq (r # rs) = Seq r (seq rs)"

definition opt :: "regex \<Rightarrow> regex" where
  "opt r = Alt r Eps"

fun rep :: "nat \<Rightarrow> regex \<Rightarrow> regex" where
  "rep 0 r = Eps"
| "rep (Suc 0) r = r"
| "rep (Suc n) r = Seq r (rep n r)"

fun upto_rep :: "nat \<Rightarrow> regex \<Rightarrow> regex" where
  "upto_rep 0 r = Eps"
| "upto_rep (Suc n) r = opt (Seq r (upto_rep n r))"

definition rep_range :: "nat \<Rightarrow> nat \<Rightarrow> regex \<Rightarrow> regex" where
  "rep_range n m r = (if m \<le> n then rep n r else Seq (rep n r) (upto_rep (m - n) r))"

definition at_least :: "nat \<Rightarrow> (char \<Rightarrow> bool) \<Rightarrow> regex" where
  "at_least n P = Seq (rep n (Chr P)) (Star P)"

section \<open>The pattern catalog (\<^verbatim>\<open>pii.py\<close>)\<close>

definition email_re :: regex where
  "email_re = seq [at_least 1 email_local, lit CHR ''@'', at_least 1 email_domain,
     lit CHR ''.'', at_least 2 alpha]"

definition phone_re :: regex where
  "phone_re = seq [opt (seq [opt (lit CHR ''+''), lit CHR ''1'', opt (Chr phone_sep)]),
     opt (lit CHR ''(''), rep 3 (Chr digit), opt (lit CHR '')''), opt (Chr phone_sep),
     rep 3 (Chr digit), opt (Chr phone_sep), rep 4 (Chr digit)]"

definition ssn_re :: regex where
  "ssn_re = seq [WordB, rep 3 (Chr digit), opt (Chr dash_space), rep 2 (Chr digit),
     opt (Chr dash_space), rep 4 (Chr digit), WordB]"

definition credit_card_re :: regex where
  "credit_card_re = seq [WordB,
     Alt (seq [lit CHR ''4'', rep 12 (Chr digit), opt (rep 3 (Chr digit))])
    (Alt (seq [lit CHR ''5'', Chr one_to_five, rep 14 (Chr digit)])
    (Alt (seq [lit CHR ''3'', Chr four_or_seven, rep 13 (Chr digit)])
         (seq [lit CHR ''6'',
               Alt (seq [lit CHR ''0'', lit CHR ''1'', lit CHR ''1''])
                   (seq [lit CHR ''5'', Chr digit, Chr digit]),
               rep 12 (Chr digit)]))),
     WordB]"

definition credit_card_formatted_re :: regex where
  "credit_card_formatted_re = seq [WordB,
     Alt (seq [lit CHR ''4'', rep 3 (Chr digit)])
    (Alt (seq [lit CHR ''5'', Chr one_to_five, rep 2 (Chr digit)])
    (Alt (seq [lit CHR ''3'', Chr four_or_seven, rep 2 (Chr digit)])
         (seq [lit CHR ''6'',
               Alt (seq [lit CHR ''0'', lit CHR ''1'', lit CHR ''1''])
                   (seq [lit CHR ''5'', rep 2 (Chr digit)])]))),
     opt (Chr dash_space), rep 4 (Chr digit), opt (Chr dash_space), rep 4 (Chr digit),
     opt (Chr dash_space), rep 4 (Chr digit), WordB]"

definition ip_v4_re :: regex where
  "ip_v4_re = seq [WordB, rep 3 (seq [rep_range 1 3 (Chr digit), lit CHR ''.'']),
     rep_range 1 3 (Chr digit), WordB]"

definition ip_v6_re :: regex where
  "ip_v6_re = seq [WordB, rep 7 (seq [rep_range 1 4 (Chr hexdigit), lit CHR '':'']),
     rep_range 1 4 (Chr hexdigit), WordB]"

definition PII_PATTERNS :: "(string \<times> regex \<times> string) list" where
  "PII_PATTERNS =
    [(''email'', email_re, ''[EMAIL_REDACTED]''),
     (''phone'', phone_re, ''[PHONE_REDACTED]''),
     (''ssn'', ssn_re, ''[SSN_REDACTED]''),
     (''credit_card'', credit_card_re, ''[CC_REDACTED]''),
     (''credit_card_formatted'', credit_card_formatted_re, ''[CC_REDACTED]''),
     (''ip_v4'', ip_v4_re, ''[IP_REDACTED]''),
     (''ip_v6'', ip_v6_re, ''[IP_REDACTED]'')]"

definition get_available_patterns :: "string list" where
  "get_available_patterns = map fst PII_PATTERNS"

section \<open>Scanning: \<^verbatim>\<open>search\<close>, \<^verbatim>\<open>findall\<close> and \<^verbatim>\<open>sub\<close>\<close>

text \<open>
  The match reported at a position. No pattern of the catalog matches the empty string
  (lemma \<open>catalog_nonnull\<close> below), so the scan always moves past a match; an empty first
  result, which the catalog cannot produce, counts as no match here.
\<close>

definition first_match :: "regex \<Rightarrow> bool \<Rightarrow> string \<Rightarrow> (bool \<times> string) option" where
  "first_match r pw s =
     (case rmatch r pw s of
        [] \<Rightarrow> None
      | (pw', s') # _ \<Rightarrow> if length s' < length s then Some (pw', s') else None)"

lemma first_match_shorter: "first_match r pw s = Some (pw', s') \<Longrightarrow> length s' < length s"
  by (auto simp: first_match_def split: list.splits if_splits)

text \<open>
  \<^verbatim>\<open>pattern.findall(text)\<close>: the non-overlapping matches from left to right. After a
  match the scan goes on behind it, in the original text.
\<close>

function findall_from :: "regex \<Rightarrow> bool \<Rightarrow> string \<Rightarrow> string list" where
  "findall_from r pw [] = []"
| "findall_from r pw (c # cs) =
     (case first_match r pw (c # cs) of
        Some (pw', s') \<Rightarrow> take (length (c # cs) - length s') (c # cs) # findall_from r pw' s'
      | None \<Rightarrow> findall_from r (is_word c) cs)"
  by pat_completeness auto
termination
  by (relation "measure (\<lambda>(r, pw, s). length s)") (auto dest: first_match_shorter)

definition findall :: "regex \<Rightarrow> string \<Rightarrow> string list" where
  "findall r s = findall_from r False s"

text \<open>\<^verbatim>\<open>pattern.sub(replacement, text)\<close> with a replacement that has no group reference.\<close>

function sub_from :: "regex \<Rightarrow> string \<Rightarrow> bool \<Rightarrow> string \<Rightarrow> string" where
  "sub_from r repl pw [] = []"
| "sub_from r repl pw (c # cs) =
     (case first_match r pw (c # cs) of
        Some (pw', s') \<Rightarrow> repl @ sub_from r repl pw' s'
      | None \<Rightarrow> c # sub_from r repl (is_word c) cs)"
  by pat_completeness auto
termination
  by (relation "measure (\<lambda>(r, repl, pw, s). length s)") (auto dest: first_match_shorter)

definition sub :: "regex \<Rightarrow> string \<Rightarrow> string \<Rightarrow> string" where
  "sub r repl s = sub_from r repl False s"

text \<open>\<^verbatim>\<open>pattern.search(text)\<close> as a truth value.\<close>

fun search_from :: "regex \<Rightarrow> bool \<Rightarrow> string \<Rightarrow> bool" where
  "search_from r pw [] = False"
| "search_from r pw (c # cs) =
     (first_match r pw (c # cs) \<noteq> None \<or> search_from r (is_word c) cs)"

definition search :: "regex \<Rightarrow> string \<Rightarrow> bool" where
  "search r s = search_from r False s"

section \<open>Redaction (\<^verbatim>\<open>pii.py\<close>)\<close>

record PIIRedactionConfig =
  enabled :: bool
  patterns :: "string list option"
  log_stats :: bool

record PIIRedactionResult =
  redacted :: string
  redactions :: "string list"
  counts :: "(string \<times> nat) list"
  has_pii :: bool

text \<open>Python's \<^verbatim>\<open>str\<close> of a non-negative integer.\<close>

fun str_nat :: "nat \<Rightarrow> string" where
  "str_nat n = (if n < 10 then [''0123456789'' ! n]
     else str_nat (n div 10) @ [''0123456789'' ! (n mod 10)])"

text \<open>The configuration that \<^verbatim>\<open>PIIRedactionConfig(enabled=True)\<close> builds.\<close>

definition default_config :: PIIRedactionConfig where
  "default_config = \<lparr>enabled = True, patterns = None, log_stats = False\<rparr>"

text \<open>
  \<^verbatim>\<open>if config.patterns:\<close> is false for \<^verbatim>\<open>None\<close> and for the empty list; otherwise the
  catalog is filtered by name, in catalog order.
\<close>

definition select_patterns :: "string list option \<Rightarrow> (string \<times> regex \<times> string) list" where
  "select_patterns ps =
     (case ps of
        None \<Rightarrow> PII_PATTERNS
      | Some names \<Rightarrow>
          if names = [] then PII_PATTERNS
          else filter (\<lambda>p. fst p \<in> set names) PII_PATTERNS)"

text \<open>
  The loop over the selected patterns. The state is the text so far, the summaries and
  the counts dictionary (an association list in insertion order).
\<close>

fun apply_patterns ::
  "(string \<times> regex \<times> string) list \<Rightarrow> string \<times> string list \<times> (string \<times> nat) list
     \<Rightarrow> string \<times> string list \<times> (string \<times> nat) list" where
  "apply_patterns [] st = st"
| "apply_patterns ((name, pattern, replacement) # ps) (result, reds, cnts) =
     (let matches = findall pattern result in
      if matches \<noteq> [] then
        (let count = length matches in
         apply_patterns ps
           (sub pattern replacement result,
            reds @ [name @ '': '' @ str_nat count @ '' instance(s)''],
            AList.update name count cnts))
      else apply_patterns ps (result, reds, cnts))"

definition redact_pii :: "string \<Rightarrow> PIIRedactionConfig option \<Rightarrow> PIIRedactionResult" where
  "redact_pii content cfg =
     (let config = (case cfg of None \<Rightarrow> default_config | Some c \<Rightarrow> c) in
      if \<not> enabled config then
        \<lparr>redacted = content, redactions = [], counts = [], has_pii = False\<rparr>
      else
        (case apply_patterns (select_patterns (patterns config)) (content, [], []) of
           (result, reds, cnts) \<Rightarrow>
             \<lparr>redacted = result, redactions = reds, counts = cnts,
              has_pii = (length reds > 0)\<rparr>))"

text \<open>What \<^verbatim>\<open>redact_pii\<close> prints: one line when PII was found and \<^verbatim>\<open>log_stats\<close> is set.\<close>

fun join :: "string \<Rightarrow> string list \<Rightarrow> string" where
  "join sep [] = []"
| "join sep [x] = x"
| "join sep (x # xs) = x @ sep @ join sep xs"

definition redact_pii_printed :: "string \<Rightarrow> PIIRedactionConfig option \<Rightarrow> string list" where
  "redact_pii_printed content cfg =
     (let config = (case cfg of None \<Rightarrow> default_config | Some c \<Rightarrow> c);
          r = redact_pii content cfg in
      if has_pii r \<and> log_stats config
      then [''PII redaction: '' @ join '', '' (redactions r)] else [])"

definition contains_pii :: "string \<Rightarrow> string list option \<Rightarrow> bool" where
  "contains_pii content ps =
     list_ex (\<lambda>(name, pattern, replacement). search pattern content) (select_patterns ps)"

section \<open>Values, errors and the network (\<^verbatim>\<open>types.py\<close>, \<^verbatim>\<open>client.py\<close>)\<close>

text \<open>
  A decoded JSON document, which is also what the fields of a \<^verbatim>\<open>Prompt\<close> and the message
  of an error hold at run time: \<^verbatim>\<open>Prompt.from_dict\<close> and \<^verbatim>\<open>error_data.get("error", ...)\<close>
  copy whatever the server sent. \<open>JNull\<close> is Python's \<^verbatim>\<open>None\<close>; a dictionary is an
  association list in insertion order.
\<close>

datatype json =
    JNull
  | JBool bool
  | JInt int
  | JFloat real
  | JStr string
  | JList "json list"
  | JObj "(string \<times> json) list"

datatype ErrorCode =
    MISSING_API_KEY
  | INVALID_INPUT
  | PROMPT_NOT_FOUND
  | API_ERROR
  | TIMEOUT
  | NETWORK_ERROR
  | SERVER_ERROR
  | RETRY_EXHAUSTED
  | LOG_ERROR

datatype ForPromptError =
  ForPromptError (message: json) (status_code: int) (code: ErrorCode)

text \<open>
  What a call can raise: a \<^verbatim>\<open>ForPromptError\<close>, or one of Python's own exceptions that the
  source neither raises on purpose nor catches.
\<close>

datatype exn =
    Raised ForPromptError
  | KeyError string
  | TypeError
  | AttributeError
  | JSONDecodeError
  | OverflowError

record Prompt =
  key :: json
  name :: json
  version_number :: json
  system_prompt :: json
  updated_at :: json
  description :: json
  purpose :: json
  expected_behavior :: json
  input_format :: json
  output_format :: json
  constraints :: json
  use_cases :: json
  additional_notes :: json
  tools_notes :: json

text \<open>\<^verbatim>\<open>d.get(k)\<close> and \<^verbatim>\<open>d.get(k, default)\<close> on a dictionary.\<close>

definition dict_get :: "(string \<times> json) list \<Rightarrow> string \<Rightarrow> json \<Rightarrow> json" where
  "dict_get d k dflt = (case map_of d k of None \<Rightarrow> dflt | Some v \<Rightarrow> v)"

text \<open>
  \<^verbatim>\<open>Prompt.from_dict\<close>: \<^verbatim>\<open>data[k]\<close> raises \<^verbatim>\<open>KeyError\<close> for a missing required field, in
  the order in which the arguments are evaluated, and \<^verbatim>\<open>TypeError\<close> when \<^verbatim>\<open>data\<close> is not a
  dictionary.
\<close>

fun required :: "(string \<times> json) list \<Rightarrow> string list \<Rightarrow> string option" where
  "required d [] = None"
| "required d (k # ks) = (if map_of d k = None then Some k else required d ks)"

definition from_dict :: "json \<Rightarrow> exn + Prompt" where
  "from_dict data =
     (case data of
        JObj d \<Rightarrow>
          (case required d [''key'', ''name'', ''versionNumber'', ''systemPrompt'', ''updatedAt''] of
             Some k \<Rightarrow> Inl (KeyError k)
           | None \<Rightarrow> Inr
               \<lparr>key = dict_get d ''key'' JNull,
                name = dict_get d ''name'' JNull,
                version_number = dict_get d ''versionNumber'' JNull,
                system_prompt = dict_get d ''systemPrompt'' JNull,
                updated_at = dict_get d ''updatedAt'' JNull,
                description = dict_get d ''description'' JNull,
                purpose = dict_get d ''purpose'' JNull,
                expected_behavior = dict_get d ''expectedBehavior'' JNull,
                input_format = dict_get d ''inputFormat'' JNull,
                output_format = dict_get d ''outputFormat'' JNull,
                constraints = dict_get d ''constraints'' JNull,
                use_cases = dict_get d ''useCases'' JNull,
                additional_notes = dict_get d ''additionalNotes'' JNull,
                tools_notes = dict_get d ''toolsNotes'' JNull\<rparr>)
      | _ \<Rightarrow> Inl TypeError)"

text \<open>
  One HTTP exchange, as \<^verbatim>\<open>httpx\<close> reports it: a response with its status code and its
  body decoded as JSON (\<open>None\<close> when \<^verbatim>\<open>response.json()\<close> raises), a timeout, or another
  request error; the last two carry the text of the exception.
\<close>

datatype outcome =
    Response int "json option"
  | TimeoutException string
  | RequestError string

record request =
  http_method :: string
  url :: string
  headers :: "(string \<times> string) list"
  params :: "(string \<times> string) list option"
  json_body :: "json option"

text \<open>
  The surroundings of a client: the network answers a request, possibly differently at
  each call (the argument is the number of calls made before), and \<^verbatim>\<open>random.random()\<close>
  returns its successive values.
\<close>

record env =
  transport :: "nat \<Rightarrow> request \<Rightarrow> outcome"
  random :: "nat \<Rightarrow> real"

text \<open>What a run leaves behind: the network calls made, the delays slept, the random numbers drawn.\<close>

record world =
  calls :: nat
  sleeps :: "real list"
  draws :: nat

text \<open>
  The client object. The timeout is a float that the model only ever prints, so it is kept
  as the text \<^verbatim>\<open>str\<close> gives it.
\<close>

record client =
  api_key :: string
  base_url :: string
  timeout :: string
  retries :: int
  redact_pii_enabled :: bool

definition DEFAULT_BASE_URL :: string where
  "DEFAULT_BASE_URL = ''https://forprompt.dev''"

definition rstrip_slash :: "string \<Rightarrow> string" where
  "rstrip_slash s = rev (dropWhile (\<lambda>c. c = CHR ''/'') (rev s))"

text \<open>\<^verbatim>\<open>a or b\<close> for an optional string: \<^verbatim>\<open>None\<close> and the empty string are both false.\<close>

definition or_else :: "string option \<Rightarrow> string \<Rightarrow> string" where
  "or_else a b = (case a of None \<Rightarrow> b | Some s \<Rightarrow> if s = [] then b else s)"

definition resolve_api_key :: "(string \<rightharpoonup> string) \<Rightarrow> string option \<Rightarrow> exn + string" where
  "resolve_api_key environ k =
     (let k' = or_else k (case environ ''FORPROMPT_API_KEY'' of None \<Rightarrow> [] | Some v \<Rightarrow> v) in
      if k' = [] then
        Inl (Raised (ForPromptError
          (JStr (''API key is required. Set FORPROMPT_API_KEY environment variable ''
                 @ ''or pass api_key parameter.''))
          401 MISSING_API_KEY))
      else Inr k')"

definition resolve_base_url :: "(string \<rightharpoonup> string) \<Rightarrow> string option \<Rightarrow> string" where
  "resolve_base_url environ u =
     rstrip_slash (or_else u
       (case environ ''FORPROMPT_BASE_URL'' of None \<Rightarrow> DEFAULT_BASE_URL | Some v \<Rightarrow> v))"

text \<open>\<^verbatim>\<open>ForPrompt.__init__\<close>.\<close>

definition new_client ::
  "(string \<rightharpoonup> string) \<Rightarrow> string option \<Rightarrow> string option \<Rightarrow> string \<Rightarrow> int \<Rightarrow> bool
     \<Rightarrow> exn + client" where
  "new_client environ k u t n rp =
     (case resolve_api_key environ k of
        Inl e \<Rightarrow> Inl e
      | Inr k' \<Rightarrow> Inr \<lparr>api_key = k', base_url = resolve_base_url environ u, timeout = t,
                      retries = n, redact_pii_enabled = rp\<rparr>)"

text \<open>Python's \<^verbatim>\<open>str\<close> of an integer.\<close>

definition str_int :: "int \<Rightarrow> string" where
  "str_int i = (if i < 0 then CHR ''-'' # str_nat (nat (- i)) else str_nat (nat i))"

text \<open>
  \<^verbatim>\<open>_get_backoff_delay\<close>, given the value that \<^verbatim>\<open>random.random()\<close> returns. The base delay
  \<^verbatim>\<open>2 ** attempt\<close> is an integer, and adding the jitter converts it to a float, which raises
  \<^verbatim>\<open>OverflowError\<close> from \<^verbatim>\<open>2 ** 1024\<close> on. Below that, \<open>backoff_delay\<close> is the delay, with the
  rounding of the float addition left out.
\<close>

definition backoff_delay :: "nat \<Rightarrow> real \<Rightarrow> real" where
  "backoff_delay attempt rnd = min (2 ^ attempt + rnd * 0.5) 30"

definition get_backoff_delay :: "nat \<Rightarrow> real \<Rightarrow> exn + real" where
  "get_backoff_delay attempt rnd =
     (if 1024 \<le> attempt then Inl OverflowError else Inr (backoff_delay attempt rnd))"

section \<open>The request executor (\<^verbatim>\<open>ForPrompt._make_request\<close>)\<close>

definition build_request ::
  "client \<Rightarrow> string \<Rightarrow> string \<Rightarrow> (string \<times> string) list option \<Rightarrow> json option \<Rightarrow> request" where
  "build_request cl m path ps js =
     \<lparr>http_method = m, url = base_url cl @ path,
      headers = [(''Content-Type'', ''application/json''), (''X-API-Key'', api_key cl)],
      params = ps, json_body = js\<rparr>"

text \<open>The error of a 4xx response; \<^verbatim>\<open>.get\<close> on a body that is not a dictionary raises.\<close>

definition client_error :: "int \<Rightarrow> json option \<Rightarrow> exn" where
  "client_error st body =
     (case (case body of None \<Rightarrow> JObj [(''error'', JStr ''Unknown error'')] | Some j \<Rightarrow> j) of
        JObj d \<Rightarrow>
          Raised (ForPromptError (dict_get d ''error'' (JStr (''HTTP '' @ str_int st))) st
            (if st = 404 then PROMPT_NOT_FOUND else API_ERROR))
      | _ \<Rightarrow> AttributeError)"

definition server_error :: "int \<Rightarrow> ForPromptError" where
  "server_error st = ForPromptError (JStr (''Server error: '' @ str_int st)) st SERVER_ERROR"

definition timeout_error :: "client \<Rightarrow> ForPromptError" where
  "timeout_error cl =
     ForPromptError (JStr (''Request timeout after '' @ timeout cl @ ''s'')) 408 TIMEOUT"

definition network_error :: "string \<Rightarrow> ForPromptError" where
  "network_error msg = ForPromptError (JStr msg) 0 NETWORK_ERROR"

definition retry_exhausted :: ForPromptError where
  "retry_exhausted = ForPromptError (JStr ''Request failed after retries'') 500 RETRY_EXHAUSTED"

text \<open>
  The wait at the end of an attempt that is to be retried: none after the last attempt.
  The random number is drawn before the delay is computed, so it is drawn even when the
  computation raises.
\<close>

definition wait_before_retry :: "client \<Rightarrow> env \<Rightarrow> nat \<Rightarrow> world \<Rightarrow> (exn + unit) \<times> world" where
  "wait_before_retry cl e attempt w =
     (if int attempt < retries cl - 1 then
        (let w' = w\<lparr>draws := draws w + 1\<rparr> in
         case get_backoff_delay attempt (random e (draws w)) of
           Inl x \<Rightarrow> (Inl x, w')
         | Inr delay \<Rightarrow> (Inr (), w'\<lparr>sleeps := sleeps w @ [delay]\<rparr>))
      else (Inr (), w))"

text \<open>
  The loop \<^verbatim>\<open>for attempt in range(self.retries)\<close>, from attempt \<open>attempt\<close> on with \<open>n\<close>
  attempts left, and the \<^verbatim>\<open>raise\<close> behind it. A recorded error is an exception object,
  which is true in \<^verbatim>\<open>last_error or ...\<close>. The wait stands outside the \<^verbatim>\<open>try\<close>, so what it
  raises leaves the loop.
\<close>

fun attempts ::
  "client \<Rightarrow> env \<Rightarrow> request \<Rightarrow> nat \<Rightarrow> nat \<Rightarrow> ForPromptError option \<Rightarrow> world
     \<Rightarrow> (exn + json) \<times> world" where
  "attempts cl e req 0 attempt last_error w =
     (case last_error of
        Some err \<Rightarrow> (Inl (Raised err), w)
      | None \<Rightarrow> (Inl (Raised retry_exhausted), w))"
| "attempts cl e req (Suc n) attempt last_error w =
     (let w1 = w\<lparr>calls := calls w + 1\<rparr> in
      case transport e (calls w) req of
        Response st body \<Rightarrow>
          if 400 \<le> st \<and> st < 500 then (Inl (client_error st body), w1)
          else if 200 \<le> st \<and> st < 300 then
            (case body of Some j \<Rightarrow> (Inr j, w1) | None \<Rightarrow> (Inl JSONDecodeError, w1))
          else
            (case wait_before_retry cl e attempt w1 of
               (Inl x, w2) \<Rightarrow> (Inl x, w2)
             | (Inr u, w2) \<Rightarrow> attempts cl e req n (Suc attempt) (Some (server_error st)) w2)
      | TimeoutException msg \<Rightarrow> (Inl (Raised (timeout_error cl)), w1)
      | RequestError msg \<Rightarrow>
          (case wait_before_retry cl e attempt w1 of
             (Inl x, w2) \<Rightarrow> (Inl x, w2)
           | (Inr u, w2) \<Rightarrow> attempts cl e req n (Suc attempt) (Some (network_error msg)) w2))"

definition make_request ::
  "client \<Rightarrow> env \<Rightarrow> string \<Rightarrow> string \<Rightarrow> (string \<times> string) list option \<Rightarrow> json option
     \<Rightarrow> world \<Rightarrow> (exn + json) \<times> world" where
  "make_request cl e m path ps js w =
     attempts cl e (build_request cl m path ps js) (nat (retries cl)) 0 None w"

section \<open>Fetching prompts (\<^verbatim>\<open>ForPrompt.get_prompt\<close>, \<^verbatim>\<open>ForPrompt.get_prompts\<close>)\<close>

definition invalid_input :: "string \<Rightarrow> exn" where
  "invalid_input msg = Raised (ForPromptError (JStr msg) 400 INVALID_INPUT)"

definition prompt_params :: "string \<Rightarrow> int option \<Rightarrow> (string \<times> string) list" where
  "prompt_params k version =
     (case version of
        None \<Rightarrow> [(''key'', k)]
      | Some v \<Rightarrow> [(''key'', k), (''version'', str_int v)])"

definition get_prompt ::
  "client \<Rightarrow> env \<Rightarrow> string \<Rightarrow> int option \<Rightarrow> world \<Rightarrow> (exn + Prompt) \<times> world" where
  "get_prompt cl e k version w =
     (if k = [] then (Inl (invalid_input ''Prompt key must be a non-empty string''), w)
      else if length k > 256 then
        (Inl (invalid_input ''Prompt key must be 256 characters or less''), w)
      else if (case version of None \<Rightarrow> False | Some v \<Rightarrow> v < 1) then
        (Inl (invalid_input ''Version must be a positive integer''), w)
      else
        (case make_request cl e ''GET'' ''/api/prompts'' (Some (prompt_params k version)) None w of
           (Inl err, w') \<Rightarrow> (Inl err, w')
         | (Inr data, w') \<Rightarrow> (from_dict data, w')))"

text \<open>\<^verbatim>\<open>[keys[i:i + n] for i in range(0, len(keys), n)]\<close>.\<close>

function batches :: "nat \<Rightarrow> 'a list \<Rightarrow> 'a list list" where
  "batches n xs = (if n = 0 \<or> xs = [] then [] else take n xs # batches n (drop n xs))"
  by pat_completeness auto
termination
  by (relation "measure (\<lambda>(n, xs). length xs)") auto

declare batches.simps [simp del]

text \<open>
  The inner loop over a batch: a \<^verbatim>\<open>ForPromptError\<close> is skipped, any other exception leaves
  the loop and the call.
\<close>

fun fetch_batch ::
  "client \<Rightarrow> env \<Rightarrow> int option \<Rightarrow> string list \<Rightarrow> (string \<times> Prompt) list \<Rightarrow> world
     \<Rightarrow> (exn + (string \<times> Prompt) list) \<times> world" where
  "fetch_batch cl e version [] result w = (Inr result, w)"
| "fetch_batch cl e version (k # ks) result w =
     (case get_prompt cl e k version w of
        (Inr prompt, w') \<Rightarrow> fetch_batch cl e version ks (AList.update k prompt result) w'
      | (Inl (Raised err), w') \<Rightarrow> fetch_batch cl e version ks result w'
      | (Inl other, w') \<Rightarrow> (Inl other, w'))"

fun fetch_batches ::
  "client \<Rightarrow> env \<Rightarrow> int option \<Rightarrow> string list list \<Rightarrow> (string \<times> Prompt) list \<Rightarrow> world
     \<Rightarrow> (exn + (string \<times> Prompt) list) \<times> world" where
  "fetch_batches cl e version [] result w = (Inr result, w)"
| "fetch_batches cl e version (b # bs) result w =
     (case fetch_batch cl e version b result w of
        (Inr result', w') \<Rightarrow> fetch_batches cl e version bs result' w'
      | (Inl err, w') \<Rightarrow> (Inl err, w'))"

definition CONCURRENCY_LIMIT :: nat where
  "CONCURRENCY_LIMIT = 5"

definition get_prompts ::
  "client \<Rightarrow> env \<Rightarrow> string list \<Rightarrow> int option \<Rightarrow> world
     \<Rightarrow> (exn + (string \<times> Prompt) list) \<times> world" where
  "get_prompts cl e keys version w =
     fetch_batches cl e version (batches CONCURRENCY_LIMIT keys) [] w"

section \<open>The trace logger (\<^verbatim>\<open>logger.py\<close>)\<close>

text \<open>
  The logger object: its configuration and the three fields of the trace state. The
  identifier that \<^verbatim>\<open>uuid.uuid4()\<close> would give is an argument of the operations that may
  need one.
\<close>

record logger =
  logger_api_key :: string
  logger_base_url :: string
  source :: string
  logger_redact_pii_enabled :: bool
  logger_timeout :: string
  trace_id :: "string option"
  prompt_key :: "string option"
  trace_version_number :: "int option"

text \<open>\<^verbatim>\<open>ForPromptLogger.__init__\<close>.\<close>

definition new_logger ::
  "(string \<rightharpoonup> string) \<Rightarrow> string option \<Rightarrow> string option \<Rightarrow> string \<Rightarrow> bool \<Rightarrow> string
     \<Rightarrow> exn + logger" where
  "new_logger environ k u src rp t =
     (case resolve_api_key environ k of
        Inl e \<Rightarrow> Inl e
      | Inr k' \<Rightarrow> Inr \<lparr>logger_api_key = k', logger_base_url = resolve_base_url environ u,
                      source = src, logger_redact_pii_enabled = rp, logger_timeout = t,
                      trace_id = None, prompt_key = None, trace_version_number = None\<rparr>)"

definition start_trace ::
  "logger \<Rightarrow> string \<Rightarrow> string \<Rightarrow> string option \<Rightarrow> int option \<Rightarrow> logger \<times> string" where
  "start_trace lg uuid pk tid vn =
     (let t = or_else tid uuid in
      (lg\<lparr>trace_id := Some t, prompt_key := Some pk, trace_version_number := vn\<rparr>, t))"

definition end_trace :: "logger \<Rightarrow> logger" where
  "end_trace lg = lg\<lparr>trace_id := None, prompt_key := None, trace_version_number := None\<rparr>"

definition is_tracing :: "logger \<Rightarrow> bool" where
  "is_tracing lg = (trace_id lg \<noteq> None)"

definition opt_str :: "string option \<Rightarrow> json" where
  "opt_str x = (case x of None \<Rightarrow> JNull | Some s \<Rightarrow> JStr s)"

definition opt_int :: "int option \<Rightarrow> json" where
  "opt_int x = (case x of None \<Rightarrow> JNull | Some i \<Rightarrow> JInt i)"

definition opt_dict :: "(string \<times> json) list option \<Rightarrow> json" where
  "opt_dict x = (case x of None \<Rightarrow> JNull | Some d \<Rightarrow> JObj d)"

text \<open>
  The content and the metadata that go out: with redaction on, the content is redacted and,
  when PII was found, the summaries are stored under \<^verbatim>\<open>pii_redactions\<close> in the metadata
  (\<^verbatim>\<open>metadata or {}\<close> is a new dictionary when there is none or an empty one).
\<close>

definition safe_content ::
  "bool \<Rightarrow> string \<Rightarrow> (string \<times> json) list option \<Rightarrow> string \<times> (string \<times> json) list option" where
  "safe_content should_redact content metadata =
     (if should_redact then
        (let result = redact_pii content (Some default_config) in
         (redacted result,
          if has_pii result then
            Some (AList.update ''pii_redactions'' (JList (map JStr (redactions result)))
                    (case metadata of None \<Rightarrow> [] | Some d \<Rightarrow> d))
          else metadata))
      else (content, metadata))"

text \<open>
  What \<^verbatim>\<open>log\<close> makes of the outcome of its one POST. A timeout is a request error for
  \<^verbatim>\<open>httpx\<close>, and \<^verbatim>\<open>log\<close> catches request errors only.
\<close>

definition log_response :: "outcome \<Rightarrow> exn + unit" where
  "log_response out =
     (case out of
        Response st body \<Rightarrow>
          if 200 \<le> st \<and> st < 300 then Inr ()
          else (case (case body of None \<Rightarrow> JObj [] | Some j \<Rightarrow> j) of
                  JObj d \<Rightarrow>
                    Inl (Raised (ForPromptError (dict_get d ''error'' (JStr ''Failed to log''))
                           st LOG_ERROR))
                | _ \<Rightarrow> Inl AttributeError)
      | TimeoutException msg \<Rightarrow>
          Inl (Raised (ForPromptError (JStr (''Network error: '' @ msg)) 0 NETWORK_ERROR))
      | RequestError msg \<Rightarrow>
          Inl (Raised (ForPromptError (JStr (''Network error: '' @ msg)) 0 NETWORK_ERROR)))"

text \<open>\<^verbatim>\<open>ForPromptLogger.log\<close>: the new logger, the request posted and the outcome of the call.\<close>

definition logger_log ::
  "logger \<Rightarrow> string \<Rightarrow> (request \<Rightarrow> outcome) \<Rightarrow> string \<Rightarrow> string \<Rightarrow> string option \<Rightarrow> int option
     \<Rightarrow> int option \<Rightarrow> int option \<Rightarrow> (string \<times> json) list option \<Rightarrow> bool option
     \<Rightarrow> logger \<times> request \<times> (exn + unit)" where
  "logger_log lg uuid post role content model input_tokens output_tokens duration_ms metadata
     redact_pii_override =
     (let tid = or_else (trace_id lg) uuid;
          lg' = lg\<lparr>trace_id := Some tid\<rparr>;
          should_redact =
            (case redact_pii_override of None \<Rightarrow> logger_redact_pii_enabled lg | Some b \<Rightarrow> b);
          (content', metadata') = safe_content should_redact content metadata;
          payload = filter (\<lambda>(k, v). v \<noteq> JNull)
            [(''traceId'', JStr tid),
             (''promptKey'', JStr (or_else (prompt_key lg) ''unknown'')),
             (''versionNumber'', opt_int (trace_version_number lg)),
             (''type'', JStr ''message''),
             (''role'', JStr role),
             (''content'', JStr content'),
             (''model'', opt_str model),
             (''inputTokens'', opt_int input_tokens),
             (''outputTokens'', opt_int output_tokens),
             (''durationMs'', opt_int duration_ms),
             (''source'', JStr (source lg)),
             (''metadata'', opt_dict metadata')];
          req = \<lparr>http_method = ''POST'', url = logger_base_url lg @ ''/api/log'',
                 headers = [(''Content-Type'', ''application/json''),
                            (''X-API-Key'', logger_api_key lg)],
                 params = None, json_body = Some (JObj payload)\<rparr>
      in (lg', req, log_response (post req)))"

text \<open>\<^verbatim>\<open>ForPromptLogger.log_request\<close>: when \<^verbatim>\<open>log\<close> raises, the trace is not ended.\<close>

definition log_request ::
  "logger \<Rightarrow> string \<Rightarrow> (request \<Rightarrow> outcome) \<Rightarrow> string \<Rightarrow> string \<Rightarrow> string \<Rightarrow> string option
     \<Rightarrow> int option \<Rightarrow> int option \<Rightarrow> int option \<Rightarrow> (string \<times> json) list option \<Rightarrow> int option
     \<Rightarrow> logger \<times> request \<times> (exn + string)" where
  "log_request lg uuid post pk role content model input_tokens output_tokens duration_ms
     metadata vn =
     (let (lg1, tid) = start_trace lg uuid pk None vn;
          (lg2, req, r) = logger_log lg1 uuid post role content model input_tokens output_tokens
                            duration_ms metadata None
      in case r of
           Inl err \<Rightarrow> (lg2, req, Inl err)
         | Inr u \<Rightarrow> (end_trace lg2, req, Inr tid))"

section \<open>What a match consumes\<close>

text \<open>Whether the text before a position ends in a word character, after reading \<open>m\<close>.\<close>

definition lastw :: "bool \<Rightarrow> string \<Rightarrow> bool" where
  "lastw pw m = (if m = [] then pw else is_word (last m))"

lemma lastw_Nil [simp]: "lastw pw [] = pw"
  by (simp add: lastw_def)

lemma lastw_Cons [simp]: "lastw pw (c # m) = lastw (is_word c) m"
  by (simp add: lastw_def)

lemma lastw_append [simp]: "lastw pw (m1 @ m2) = lastw (lastw pw m1) m2"
  by (induction m1 arbitrary: pw) simp_all

text \<open>The characters a pattern can consume.\<close>

fun accepts :: "regex \<Rightarrow> char \<Rightarrow> bool" where
  "accepts (Chr P) c = P c"
| "accepts Eps c = False"
| "accepts WordB c = False"
| "accepts (Seq r1 r2) c = (accepts r1 c \<or> accepts r2 c)"
| "accepts (Alt r1 r2) c = (accepts r1 c \<or> accepts r2 c)"
| "accepts (Star P) c = P c"

lemma star_ends_split:
  "(pw', s') \<in> set (star_ends P pw s) \<Longrightarrow>
     \<exists>m. s = m @ s' \<and> pw' = lastw pw m \<and> (\<forall>c\<in>set m. P c)"
proof (induction s arbitrary: pw)
  case Nil
  then show ?case by simp
next
  case (Cons c cs)
  show ?case
  proof (cases "(pw', s') = (pw, c # cs)")
    case True
    then show ?thesis by simp
  next
    case False
    with Cons.prems have pc: "P c" and mem: "(pw', s') \<in> set (star_ends P (is_word c) cs)"
      by (auto split: if_splits)
    from Cons.IH [OF mem] obtain m where
      "cs = m @ s'" "pw' = lastw (is_word c) m" "\<forall>c\<in>set m. P c"
      by blast
    with pc have "c # cs = (c # m) @ s' \<and> pw' = lastw pw (c # m) \<and> (\<forall>x\<in>set (c # m). P x)"
      by simp
    then show ?thesis by blast
  qed
qed

lemma rmatch_split:
  "(pw', s') \<in> set (rmatch r pw s) \<Longrightarrow>
     \<exists>m. s = m @ s' \<and> pw' = lastw pw m \<and> (\<forall>c\<in>set m. accepts r c)"
proof (induction r arbitrary: pw s pw' s')
  case (Chr P)
  then show ?case by (cases s) (auto split: if_splits)
next
  case Eps
  then show ?case by simp
next
  case WordB
  then show ?case by (auto split: if_splits)
next
  case (Seq r1 r2)
  from Seq.prems obtain p1 s1 where a: "(p1, s1) \<in> set (rmatch r1 pw s)"
    and b: "(pw', s') \<in> set (rmatch r2 p1 s1)"
    by auto
  from Seq.IH(1) [OF a] obtain m1 where
    m1: "s = m1 @ s1" "p1 = lastw pw m1" "\<forall>c\<in>set m1. accepts r1 c"
    by blast
  from Seq.IH(2) [OF b] obtain m2 where
    m2: "s1 = m2 @ s'" "pw' = lastw p1 m2" "\<forall>c\<in>set m2. accepts r2 c"
    by blast
  from m1 m2 have "s = (m1 @ m2) @ s' \<and> pw' = lastw pw (m1 @ m2)
      \<and> (\<forall>c\<in>set (m1 @ m2). accepts (Seq r1 r2) c)"
    by auto
  then show ?case by blast
next
  case (Alt r1 r2)
  from Alt.prems have "(pw', s') \<in> set (rmatch r1 pw s) \<or> (pw', s') \<in> set (rmatch r2 pw s)"
    by simp
  then show ?case
  proof
    assume "(pw', s') \<in> set (rmatch r1 pw s)"
    from Alt.IH(1) [OF this] show ?thesis by auto
  next
    assume "(pw', s') \<in> set (rmatch r2 pw s)"
    from Alt.IH(2) [OF this] show ?thesis by auto
  qed
next
  case (Star P)
  then show ?case using star_ends_split [of pw' s' P pw s] by simp
qed

lemma rmatch_length: "(pw', s') \<in> set (rmatch r pw s) \<Longrightarrow> length s' \<le> length s"
  using rmatch_split [of pw' s' r pw s] by auto

text \<open>Patterns that cannot match the empty string.\<close>

fun nonnull :: "regex \<Rightarrow> bool" where
  "nonnull (Chr P) = True"
| "nonnull Eps = False"
| "nonnull WordB = False"
| "nonnull (Seq r1 r2) = (nonnull r1 \<or> nonnull r2)"
| "nonnull (Alt r1 r2) = (nonnull r1 \<and> nonnull r2)"
| "nonnull (Star P) = False"

lemma nonnull_shorter:
  "nonnull r \<Longrightarrow> (pw', s') \<in> set (rmatch r pw s) \<Longrightarrow> length s' < length s"
proof (induction r arbitrary: pw s pw' s')
  case (Chr P)
  then show ?case by (cases s) (auto split: if_splits)
next
  case (Seq r1 r2)
  from Seq.prems(2) obtain p1 s1 where a: "(p1, s1) \<in> set (rmatch r1 pw s)"
    and b: "(pw', s') \<in> set (rmatch r2 p1 s1)"
    by auto
  from a b have le: "length s1 \<le> length s" "length s' \<le> length s1"
    by (auto dest: rmatch_length)
  from Seq.prems(1) have "nonnull r1 \<or> nonnull r2" by simp
  then show ?case
  proof
    assume "nonnull r1"
    from Seq.IH(1) [OF this a] le show ?thesis by simp
  next
    assume "nonnull r2"
    from Seq.IH(2) [OF this b] le show ?thesis by simp
  qed
next
  case (Alt r1 r2)
  from Alt.prems have "(pw', s') \<in> set (rmatch r1 pw s) \<or> (pw', s') \<in> set (rmatch r2 pw s)"
    by simp
  with Alt show ?case by auto
qed simp_all

lemma first_match_nonnull:
  "nonnull r \<Longrightarrow> (first_match r pw s = None) = (rmatch r pw s = [])"
  by (cases "rmatch r pw s")
    (auto simp: first_match_def dest: nonnull_shorter [where r = r and pw = pw and s = s])

lemma first_match_mem:
  "first_match r pw s = Some (pw', s') \<Longrightarrow> (pw', s') \<in> set (rmatch r pw s)"
  by (auto simp: first_match_def split: list.splits if_splits)

section \<open>Moving a match to another context\<close>

text \<open>Patterns without a word boundary: a match depends on the matched text alone.\<close>

fun ctxfree :: "regex \<Rightarrow> bool" where
  "ctxfree (Chr P) = True"
| "ctxfree Eps = True"
| "ctxfree WordB = False"
| "ctxfree (Seq r1 r2) = (ctxfree r1 \<and> ctxfree r2)"
| "ctxfree (Alt r1 r2) = (ctxfree r1 \<and> ctxfree r2)"
| "ctxfree (Star P) = True"

lemma star_ends_transfer:
  "(pw', t1) \<in> set (star_ends P pw (m @ t1)) \<Longrightarrow>
     (lastw pw2 m, t2) \<in> set (star_ends P pw2 (m @ t2))"
proof (induction m arbitrary: pw pw2)
  case Nil
  show ?case by (cases t2) simp_all
next
  case (Cons c m)
  have "(pw', t1) \<noteq> (pw, c # m @ t1)" by auto
  with Cons.prems have pc: "P c" and mem: "(pw', t1) \<in> set (star_ends P (is_word c) (m @ t1))"
    by (auto split: if_splits)
  from Cons.IH [OF mem, of "is_word c"] pc show ?case by simp
qed

text \<open>
  A match of the text \<open>m\<close> stays a match when the text around \<open>m\<close> changes, as long as the
  pattern has no word boundary or the two ends of \<open>m\<close> look the same to one.
\<close>

lemma rmatch_transfer:
  "(pw', t1) \<in> set (rmatch r pw (m @ t1)) \<Longrightarrow>
   ctxfree r \<or> (pw2 = pw \<and> next_is_word t2 = next_is_word t1) \<Longrightarrow>
     (lastw pw2 m, t2) \<in> set (rmatch r pw2 (m @ t2))"
proof (induction r arbitrary: pw pw2 m pw' t1 t2)
  case (Chr P)
  show ?case
  proof (cases m)
    case Nil
    with Chr.prems(1) nonnull_shorter [of "Chr P" pw' t1 pw t1] show ?thesis by simp
  next
    case (Cons c m')
    with Chr.prems(1) show ?thesis by (auto split: if_splits)
  qed
next
  case Eps
  then show ?case by simp
next
  case WordB
  from WordB.prems(1) have "m = []" by (auto split: if_splits)
  with WordB.prems show ?case by (auto split: if_splits)
next
  case (Seq r1 r2)
  from Seq.prems(1) obtain p1 s1 where a: "(p1, s1) \<in> set (rmatch r1 pw (m @ t1))"
    and b: "(pw', t1) \<in> set (rmatch r2 p1 s1)"
    by auto
  from rmatch_split [OF a] obtain m1 where m1: "m @ t1 = m1 @ s1" "p1 = lastw pw m1" by blast
  from rmatch_split [OF b] obtain m2 where m2: "s1 = m2 @ t1" by blast
  from m1 m2 have m: "m = m1 @ m2" by simp
  have nw: "next_is_word (m2 @ t2) = next_is_word (m2 @ t1)"
    if "next_is_word t2 = next_is_word t1"
    using that by (cases m2) simp_all
  from a m2 have a': "(p1, m2 @ t1) \<in> set (rmatch r1 pw (m1 @ (m2 @ t1)))"
    using m1 by simp
  have c1: "ctxfree r1 \<or> (pw2 = pw \<and> next_is_word (m2 @ t2) = next_is_word (m2 @ t1))"
    using Seq.prems(2) nw by auto
  have r1: "(lastw pw2 m1, m2 @ t2) \<in> set (rmatch r1 pw2 (m1 @ (m2 @ t2)))"
    by (rule Seq.IH(1) [OF a' c1])
  from b m2 have b': "(pw', t1) \<in> set (rmatch r2 p1 (m2 @ t1))" by simp
  have c2: "ctxfree r2 \<or> (lastw pw2 m1 = p1 \<and> next_is_word t2 = next_is_word t1)"
    using Seq.prems(2) m1(2) by auto
  have r2: "(lastw (lastw pw2 m1) m2, t2) \<in> set (rmatch r2 (lastw pw2 m1) (m2 @ t2))"
    by (rule Seq.IH(2) [OF b' c2])
  from r1 r2 show ?case unfolding m by force
next
  case (Alt r1 r2)
  from Alt.prems(1) have
    "(pw', t1) \<in> set (rmatch r1 pw (m @ t1)) \<or> (pw', t1) \<in> set (rmatch r2 pw (m @ t1))"
    by simp
  then show ?case
  proof
    assume a: "(pw', t1) \<in> set (rmatch r1 pw (m @ t1))"
    have "ctxfree r1 \<or> (pw2 = pw \<and> next_is_word t2 = next_is_word t1)"
      using Alt.prems(2) by auto
    from Alt.IH(1) [OF a this] show ?thesis by simp
  next
    assume a: "(pw', t1) \<in> set (rmatch r2 pw (m @ t1))"
    have "ctxfree r2 \<or> (pw2 = pw \<and> next_is_word t2 = next_is_word t1)"
      using Alt.prems(2) by auto
    from Alt.IH(2) [OF a this] show ?thesis by simp
  qed
next
  case (Star P)
  then show ?case using star_ends_transfer [of pw' t1 P pw m pw2 t2] by simp
qed

section \<open>Static facts about a pattern\<close>

definition cls_sub :: "(char \<Rightarrow> bool) \<Rightarrow> (char \<Rightarrow> bool) \<Rightarrow> bool" where
  "cls_sub P Q = (\<forall>c. P c \<longrightarrow> Q c)"

text \<open>Every match contains a character of the class \<open>K\<close>.\<close>

fun must_have :: "(char \<Rightarrow> bool) \<Rightarrow> regex \<Rightarrow> bool" where
  "must_have K (Chr P) = cls_sub P K"
| "must_have K (Seq r1 r2) = (must_have K r1 \<or> must_have K r2)"
| "must_have K (Alt r1 r2) = (must_have K r1 \<and> must_have K r2)"
| "must_have K r = False"

lemma must_have_match:
  "must_have K r \<Longrightarrow> (pw', s') \<in> set (rmatch r pw s) \<Longrightarrow>
     \<exists>m. s = m @ s' \<and> (\<exists>c\<in>set m. K c)"
proof (induction r arbitrary: pw s pw' s')
  case (Chr P)
  then show ?case by (cases s) (auto simp: cls_sub_def split: if_splits)
next
  case (Seq r1 r2)
  from Seq.prems(2) obtain p1 s1 where a: "(p1, s1) \<in> set (rmatch r1 pw s)"
    and b: "(pw', s') \<in> set (rmatch r2 p1 s1)"
    by auto
  from rmatch_split [OF a] obtain m1 where m1: "s = m1 @ s1" by blast
  from rmatch_split [OF b] obtain m2 where m2: "s1 = m2 @ s'" by blast
  from Seq.prems(1) have "must_have K r1 \<or> must_have K r2" by simp
  then have "\<exists>c\<in>set (m1 @ m2). K c"
  proof
    assume "must_have K r1"
    from Seq.IH(1) [OF this a] m1 show ?thesis by auto
  next
    assume "must_have K r2"
    from Seq.IH(2) [OF this b] m2 show ?thesis by auto
  qed
  moreover have "s = (m1 @ m2) @ s'" using m1 m2 by simp
  ultimately show ?case by blast
next
  case (Alt r1 r2)
  from Alt.prems have "(pw', s') \<in> set (rmatch r1 pw s) \<or> (pw', s') \<in> set (rmatch r2 pw s)"
    by simp
  with Alt show ?case by auto
qed simp_all

fun zero_width :: "regex \<Rightarrow> bool" where
  "zero_width Eps = True"
| "zero_width WordB = True"
| "zero_width r = False"

lemma zero_width_match:
  "zero_width r \<Longrightarrow> (pw', s') \<in> set (rmatch r pw s) \<Longrightarrow> pw' = pw \<and> s' = s"
  by (cases r) (auto split: if_splits)

text \<open>Every match starts with a word character.\<close>

fun starts_word :: "regex \<Rightarrow> bool" where
  "starts_word (Chr P) = cls_sub P is_word"
| "starts_word (Seq r1 r2) = (starts_word r1 \<or> (zero_width r1 \<and> starts_word r2))"
| "starts_word (Alt r1 r2) = (starts_word r1 \<and> starts_word r2)"
| "starts_word r = False"

lemma starts_word_match:
  "starts_word r \<Longrightarrow> (pw', s') \<in> set (rmatch r pw s) \<Longrightarrow> next_is_word s"
proof (induction r arbitrary: pw s pw' s')
  case (Chr P)
  then show ?case by (cases s) (auto simp: cls_sub_def split: if_splits)
next
  case (Seq r1 r2)
  from Seq.prems(2) obtain p1 s1 where a: "(p1, s1) \<in> set (rmatch r1 pw s)"
    and b: "(pw', s') \<in> set (rmatch r2 p1 s1)"
    by auto
  from Seq.prems(1) have "starts_word r1 \<or> (zero_width r1 \<and> starts_word r2)" by simp
  then show ?case
  proof
    assume "starts_word r1"
    from Seq.IH(1) [OF this a] show ?thesis .
  next
    assume z: "zero_width r1 \<and> starts_word r2"
    with zero_width_match [OF _ a] have "s1 = s" by simp
    with Seq.IH(2) [OF _ b] z show ?thesis by simp
  qed
next
  case (Alt r1 r2)
  from Alt.prems have "(pw', s') \<in> set (rmatch r1 pw s) \<or> (pw', s') \<in> set (rmatch r2 pw s)"
    by simp
  with Alt show ?case by auto
qed simp_all

text \<open>The pattern starts, and ends, with \<^verbatim>\<open>\b\<close>.\<close>

fun starts_bound :: "regex \<Rightarrow> bool" where
  "starts_bound WordB = True"
| "starts_bound (Seq r1 r2) = starts_bound r1"
| "starts_bound (Alt r1 r2) = (starts_bound r1 \<and> starts_bound r2)"
| "starts_bound r = False"

lemma starts_bound_match:
  "starts_bound r \<Longrightarrow> (pw', s') \<in> set (rmatch r pw s) \<Longrightarrow> pw \<noteq> next_is_word s"
proof (induction r arbitrary: pw s pw' s')
  case WordB
  then show ?case by (auto split: if_splits)
next
  case (Seq r1 r2)
  from Seq.prems(2) obtain p1 s1 where a: "(p1, s1) \<in> set (rmatch r1 pw s)"
    by auto
  from Seq.IH(1) [OF _ a] Seq.prems(1) show ?case by simp
next
  case (Alt r1 r2)
  from Alt.prems(1) have sb: "starts_bound r1" "starts_bound r2" by simp_all
  from Alt.prems(2) have
    "(pw', s') \<in> set (rmatch r1 pw s) \<or> (pw', s') \<in> set (rmatch r2 pw s)"
    by simp
  then show ?case
  proof
    assume "(pw', s') \<in> set (rmatch r1 pw s)"
    from Alt.IH(1) [OF sb(1) this] show ?thesis .
  next
    assume "(pw', s') \<in> set (rmatch r2 pw s)"
    from Alt.IH(2) [OF sb(2) this] show ?thesis .
  qed
qed simp_all

fun ends_bound :: "regex \<Rightarrow> bool" where
  "ends_bound WordB = True"
| "ends_bound (Seq r1 r2) = ends_bound r2"
| "ends_bound (Alt r1 r2) = (ends_bound r1 \<and> ends_bound r2)"
| "ends_bound r = False"

lemma ends_bound_match:
  "ends_bound r \<Longrightarrow> (pw', s') \<in> set (rmatch r pw s) \<Longrightarrow> pw' \<noteq> next_is_word s'"
proof (induction r arbitrary: pw s pw' s')
  case WordB
  then show ?case by (auto split: if_splits)
next
  case (Seq r1 r2)
  from Seq.prems(2) obtain p1 s1 where b: "(pw', s') \<in> set (rmatch r2 p1 s1)"
    by auto
  from Seq.IH(2) [OF _ b] Seq.prems(1) show ?case by simp
next
  case (Alt r1 r2)
  from Alt.prems(1) have eb: "ends_bound r1" "ends_bound r2" by simp_all
  from Alt.prems(2) have
    "(pw', s') \<in> set (rmatch r1 pw s) \<or> (pw', s') \<in> set (rmatch r2 pw s)"
    by simp
  then show ?case
  proof
    assume "(pw', s') \<in> set (rmatch r1 pw s)"
    from Alt.IH(1) [OF eb(1) this] show ?thesis .
  next
    assume "(pw', s') \<in> set (rmatch r2 pw s)"
    from Alt.IH(2) [OF eb(2) this] show ?thesis .
  qed
qed simp_all

text \<open>
  The text before the end of a match ends in a word character, given (\<open>pin\<close>) that the
  text before its start does.
\<close>

fun ends_word :: "regex \<Rightarrow> bool \<Rightarrow> bool" where
  "ends_word (Chr P) pin = cls_sub P is_word"
| "ends_word Eps pin = pin"
| "ends_word WordB pin = pin"
| "ends_word (Seq r1 r2) pin = ends_word r2 (ends_word r1 pin)"
| "ends_word (Alt r1 r2) pin = (ends_word r1 pin \<and> ends_word r2 pin)"
| "ends_word (Star P) pin = (pin \<and> cls_sub P is_word)"

lemma star_ends_word:
  "cls_sub P is_word \<Longrightarrow> pw \<Longrightarrow> (pw', s') \<in> set (star_ends P pw s) \<Longrightarrow> pw'"
  using star_ends_split [of pw' s' P pw s]
  by (auto simp: cls_sub_def lastw_def split: if_splits)

lemma ends_word_match:
  "ends_word r pin \<Longrightarrow> pin \<longrightarrow> pw \<Longrightarrow> (pw', s') \<in> set (rmatch r pw s) \<Longrightarrow> pw'"
proof (induction r arbitrary: pin pw s pw' s')
  case (Chr P)
  then show ?case by (cases s) (auto simp: cls_sub_def split: if_splits)
next
  case Eps
  then show ?case by simp
next
  case WordB
  then show ?case by (auto split: if_splits)
next
  case (Seq r1 r2)
  from Seq.prems(3) obtain p1 s1 where a: "(p1, s1) \<in> set (rmatch r1 pw s)"
    and b: "(pw', s') \<in> set (rmatch r2 p1 s1)"
    by auto
  have "ends_word r1 pin \<longrightarrow> p1" using Seq.IH(1) [OF _ Seq.prems(2) a] by blast
  from Seq.IH(2) [OF _ this b] Seq.prems(1) show ?case by simp
next
  case (Alt r1 r2)
  from Alt.prems(3) have
    "(pw', s') \<in> set (rmatch r1 pw s) \<or> (pw', s') \<in> set (rmatch r2 pw s)"
    by simp
  with Alt.IH [of pin pw pw' s' s] Alt.prems(1,2) show ?case by auto
next
  case (Star P)
  then show ?case using star_ends_word [of P pw pw' s' s] by simp
qed

text \<open>A pattern between two word boundaries whose matches start and end with a word character.\<close>

definition bounded :: "regex \<Rightarrow> bool" where
  "bounded r = (starts_bound r \<and> starts_word r \<and> ends_word r False \<and> ends_bound r)"

lemma bounded_match:
  assumes "bounded r" and "(pw', s') \<in> set (rmatch r pw s)"
  shows "\<not> pw \<and> next_is_word s \<and> pw' \<and> \<not> next_is_word s'"
proof -
  from assms have a: "next_is_word s" and b: "pw \<noteq> next_is_word s"
    and d: "pw' \<noteq> next_is_word s'"
    by (auto simp: bounded_def dest: starts_word_match starts_bound_match ends_bound_match)
  from assms have c: "pw'"
    using ends_word_match [of r False pw pw' s' s] by (simp add: bounded_def)
  from a b c d show ?thesis by simp
qed

section \<open>A pattern finds nothing in what the scan leaves behind\<close>

text \<open>
  Every match of a catalog pattern holds a digit, an \<^verbatim>\<open>@\<close> or a colon, and no square
  bracket; a replacement token is wrapped in square brackets and holds none of the former.
\<close>

definition key_char :: "char \<Rightarrow> bool" where
  "key_char c = (digit c \<or> c = CHR ''@'' \<or> c = CHR '':'')"

definition good :: "regex \<Rightarrow> bool" where
  "good r = (nonnull r \<and> \<not> accepts r CHR ''['' \<and> \<not> accepts r CHR '']'' \<and> must_have key_char r)"

definition token :: "string \<Rightarrow> bool" where
  "token tok = (\<exists>body. tok = CHR ''['' # body @ '']'' \<and> (\<forall>c\<in>set body. \<not> key_char c))"

lemma prefix_before:
  "xs @ a # ys = m @ s' \<Longrightarrow> a \<notin> set m \<Longrightarrow> \<exists>w. xs = m @ w"
proof (induction xs arbitrary: m)
  case Nil
  then show ?case by (cases m) auto
next
  case (Cons x xs)
  show ?case
  proof (cases m)
    case Nil
    then show ?thesis by simp
  next
    case (Cons y m')
    with Cons.prems have "xs @ a # ys = m' @ s'" "a \<notin> set m'" "x = y" by auto
    with Cons.IH [of m'] Cons show ?thesis by auto
  qed
qed

lemma search_from_suffix:
  "search_from r (lastw pw m) s' \<Longrightarrow> search_from r pw (m @ s')"
  by (induction m arbitrary: pw) auto

lemma good_match:
  assumes "good r" and "(pw', s') \<in> set (rmatch r pw s)"
  obtains m where "s = m @ s'" "m \<noteq> []" "pw' = is_word (last m)"
    "CHR ''['' \<notin> set m" "CHR '']'' \<notin> set m" "\<exists>c\<in>set m. key_char c"
proof -
  from rmatch_split [OF assms(2)] obtain m where m: "s = m @ s'" "pw' = lastw pw m"
    "\<forall>c\<in>set m. accepts r c" by blast
  from assms have "length s' < length s" by (auto simp: good_def dest: nonnull_shorter)
  with m have ne: "m \<noteq> []" by auto
  from assms(1) have "must_have key_char r" by (simp add: good_def)
  from must_have_match [OF this assms(2)] m(1) have k: "\<exists>c\<in>set m. key_char c" by auto
  from m(3) assms(1) have "CHR ''['' \<notin> set m" "CHR '']'' \<notin> set m" by (auto simp: good_def)
  with m ne k that show ?thesis by (simp add: lastw_def)
qed

lemma not_word_bracket [simp]: "\<not> is_word CHR '']''" "\<not> is_word CHR ''[''"
  by (simp_all add: is_word_def alpha_def lower_def upper_def digit_def)

lemma search_behind_token:
  "good r \<Longrightarrow> \<forall>c\<in>set u. \<not> key_char c \<Longrightarrow> search_from r q (u @ CHR '']'' # t) \<Longrightarrow>
     search_from r False t"
proof (induction u arbitrary: q)
  case Nil
  have "first_match r q (CHR '']'' # t) = None"
  proof (rule ccontr)
    assume "first_match r q (CHR '']'' # t) \<noteq> None"
    then obtain pw' s' where "(pw', s') \<in> set (rmatch r q (CHR '']'' # t))"
      by (auto dest: first_match_mem)
    from good_match [OF Nil.prems(1) this] obtain m where
      "CHR '']'' # t = m @ s'" "m \<noteq> []" "CHR '']'' \<notin> set m" by metis
    then show False by (cases m) auto
  qed
  with Nil.prems(3) show ?case by simp
next
  case (Cons c u)
  have "first_match r q (c # u @ CHR '']'' # t) = None"
  proof (rule ccontr)
    assume "first_match r q (c # u @ CHR '']'' # t) \<noteq> None"
    then obtain pw' s' where "(pw', s') \<in> set (rmatch r q ((c # u) @ CHR '']'' # t))"
      by (auto dest: first_match_mem)
    from good_match [OF Cons.prems(1) this] obtain m where
      m: "(c # u) @ CHR '']'' # t = m @ s'" "CHR '']'' \<notin> set m" "\<exists>c\<in>set m. key_char c"
      by metis
    from prefix_before [OF m(1,2)] obtain w where "c # u = m @ w" by blast
    then have "set m \<subseteq> set (c # u)" by (metis set_append Un_upper1)
    with m(3) Cons.prems(2) show False by blast
  qed
  with Cons.prems(3) have "search_from r (is_word c) (u @ CHR '']'' # t)" by simp
  with Cons.IH [of "is_word c"] Cons.prems(1,2) show ?case by simp
qed

text \<open>A match in a text that starts with a token lies behind the token.\<close>

lemma search_token:
  assumes "good r" and "token tok" and "search_from r q (tok @ t)"
  shows "search_from r False t"
proof -
  from assms(2) obtain body where b: "tok = (CHR ''['' # body) @ CHR '']'' # []"
    and nb: "\<forall>c\<in>set body. \<not> key_char c"
    by (auto simp: token_def)
  have "\<not> key_char CHR ''[''" by (simp add: key_char_def digit_def)
  with nb have "\<forall>c\<in>set (CHR ''['' # body). \<not> key_char c" by simp
  moreover from assms(3) b have "search_from r q ((CHR ''['' # body) @ CHR '']'' # t)" by simp
  ultimately show ?thesis using search_behind_token [OF assms(1)] by blast
qed

text \<open>The text that \<open>sub_from\<close> copies before its first replacement.\<close>

lemma sub_from_prefix:
  assumes "token tok"
  shows "sub_from r tok pw s = m @ t' \<Longrightarrow> CHR ''['' \<notin> set m \<Longrightarrow>
    \<exists>t. s = m @ t \<and> (next_is_word t' = next_is_word t
        \<or> (\<not> next_is_word t' \<and> first_match r (lastw pw m) t \<noteq> None))"
proof (induction m arbitrary: pw s)
  case Nil
  show ?case
  proof (cases s)
    case Nil
    with Nil.prems show ?thesis by simp
  next
    case (Cons c cs)
    show ?thesis
    proof (cases "first_match r pw (c # cs)")
      case None
      with Cons Nil.prems show ?thesis by auto
    next
      case (Some a)
      with Cons Nil.prems assms have "\<not> next_is_word t'"
        by (cases a) (auto simp: token_def)
      with Some Cons show ?thesis by simp
    qed
  qed
next
  case (Cons x m)
  note prems = Cons.prems and IH = Cons.IH
  show ?case
  proof (cases s)
    case Nil
    with prems show ?thesis by simp
  next
    case (Cons c cs)
    show ?thesis
    proof (cases "first_match r pw (c # cs)")
      case None
      with Cons prems have eq: "x = c" "sub_from r tok (is_word c) cs = m @ t'" by auto
      from IH [OF eq(2)] prems(2) obtain t where
        "cs = m @ t" "next_is_word t' = next_is_word t
          \<or> (\<not> next_is_word t' \<and> first_match r (lastw (is_word c) m) t \<noteq> None)"
        by auto
      with eq Cons show ?thesis by simp
    next
      case (Some a)
      with Cons prems(1) assms have "x = CHR ''[''"
        by (cases a) (auto simp: token_def)
      with prems(2) show ?thesis by simp
    qed
  qed
qed

text \<open>A match at the very start of the output of \<open>sub_from\<close> is a match at the start of its input.\<close>

lemma sub_from_head:
  assumes gi: "good ri" and gj: "good rj" and tk: "token tok"
    and kind: "ctxfree ri \<or> (bounded ri \<and> bounded rj)"
    and ctx: "ctxfree ri \<or> q = pw \<or> (\<not> q \<and> \<not> next_is_word s)"
    and hit: "rmatch ri q (sub_from rj tok pw s) \<noteq> []"
  shows "rmatch ri pw s \<noteq> []"
proof -
  from hit obtain pw' t' where mem: "(pw', t') \<in> set (rmatch ri q (sub_from rj tok pw s))"
    by (cases "rmatch ri q (sub_from rj tok pw s)") auto
  from good_match [OF gi mem] obtain m where m: "sub_from rj tok pw s = m @ t'" "m \<noteq> []"
    "pw' = is_word (last m)" "CHR ''['' \<notin> set m" by metis
  from sub_from_prefix [OF tk m(1) m(4)] obtain t where t: "s = m @ t"
    and rel: "next_is_word t' = next_is_word t
        \<or> (\<not> next_is_word t' \<and> first_match rj (lastw pw m) t \<noteq> None)"
    by blast
  from mem m(1) have mem': "(pw', t') \<in> set (rmatch ri q (m @ t'))" by simp
  show ?thesis
  proof (cases "ctxfree ri")
    case True
    from rmatch_transfer [OF mem', of pw t] True t show ?thesis by auto
  next
    case False
    with kind have bi: "bounded ri" and bj: "bounded rj" by simp_all
    from bounded_match [OF bi mem] m(1)
    have nq: "\<not> q" and hw: "next_is_word (m @ t')" and pw': "pw'"
      by simp_all
    from hw m(2) t have "next_is_word s" by (cases m) simp_all
    with ctx False have qpw: "q = pw" by simp
    have "next_is_word t' = next_is_word t"
    proof (rule ccontr)
      assume "next_is_word t' \<noteq> next_is_word t"
      with rel have "first_match rj (lastw pw m) t \<noteq> None" by simp
      then obtain a b where "(a, b) \<in> set (rmatch rj (lastw pw m) t)"
        by (auto dest: first_match_mem)
      from bounded_match [OF bj this] have "\<not> lastw pw m" by simp
      with m(2,3) pw' show False by (simp add: lastw_def)
    qed
    with rmatch_transfer [OF mem', of pw t] qpw t show ?thesis by auto
  qed
qed

text \<open>
  After \<open>rj\<close> has been replaced by a token, \<open>ri\<close> finds nothing, when \<open>ri\<close> is \<open>rj\<close> itself
  or found nothing before.
\<close>

lemma sub_from_clean:
  assumes gi: "good ri" and gj: "good rj" and tk: "token tok"
    and kind: "ctxfree ri \<or> (bounded ri \<and> bounded rj)"
  shows "ri = rj \<or> \<not> search_from ri pw s \<Longrightarrow>
    ctxfree ri \<or> q = pw \<or> (\<not> q \<and> \<not> next_is_word s) \<Longrightarrow>
    \<not> search_from ri q (sub_from rj tok pw s)"
proof (induction s arbitrary: pw q rule: length_induct)
  case (1 s)
  from gi have nn: "nonnull ri" by (simp add: good_def)
  show ?case
  proof (cases s)
    case Nil
    then show ?thesis by simp
  next
    case (Cons c cs)
    show ?thesis
    proof (cases "first_match rj pw (c # cs)")
      case None
      have nohead: "rmatch ri pw s = []"
      proof (cases "ri = rj")
        case True
        with None nn Cons show ?thesis by (simp add: first_match_nonnull)
      next
        case False
        with "1.prems"(1) Cons have "first_match ri pw (c # cs) = None"
          by (cases "first_match ri pw (c # cs)") auto
        with nn Cons show ?thesis by (simp add: first_match_nonnull)
      qed
      have "rmatch ri q (sub_from rj tok pw s) = []"
        using sub_from_head [OF gi gj tk kind "1.prems"(2)] nohead by blast
      then have h1: "first_match ri q (c # sub_from rj tok (is_word c) cs) = None"
        using None Cons by (simp add: first_match_def)
      have a1: "ri = rj \<or> \<not> search_from ri (is_word c) cs" using "1.prems"(1) Cons by auto
      have "length cs < length s" using Cons by simp
      with "1.IH" a1 have "\<not> search_from ri (is_word c) (sub_from rj tok (is_word c) cs)"
        by blast
      with h1 None Cons show ?thesis by simp
    next
      case (Some a)
      obtain pw' s' where a: "a = (pw', s')" by (cases a)
      from Some a have mem: "(pw', s') \<in> set (rmatch rj pw (c # cs))"
        by (simp add: first_match_mem)
      from Some a Cons have len: "length s' < length s" by (auto dest: first_match_shorter)
      from rmatch_split [OF mem] obtain m where m: "c # cs = m @ s'" "pw' = lastw pw m"
        by blast
      have p1: "ri = rj \<or> \<not> search_from ri pw' s'"
      proof (cases "ri = rj")
        case False
        with "1.prems"(1) Cons have "\<not> search_from ri pw (m @ s')" using m(1) by metis
        with search_from_suffix [of ri pw m s'] m(2) show ?thesis by blast
      qed simp
      have p2: "ctxfree ri \<or> False = pw' \<or> (\<not> False \<and> \<not> next_is_word s')"
      proof (cases "ctxfree ri")
        case False
        with kind have "bounded rj" by simp
        from bounded_match [OF this mem] show ?thesis by simp
      qed simp
      from "1.IH" len p1 p2 have "\<not> search_from ri False (sub_from rj tok pw' s')" by blast
      with search_token [OF gi tk, of q "sub_from rj tok pw' s'"]
      have "\<not> search_from ri q (tok @ sub_from rj tok pw' s')" by blast
      with Some a Cons show ?thesis by simp
    qed
  qed
qed

lemma no_search_sub: "\<not> search_from r pw s \<Longrightarrow> sub_from r tok pw s = s"
  by (induction s arbitrary: pw) (auto split: option.splits)

lemma findall_search: "(findall_from r pw s = []) = (\<not> search_from r pw s)"
  by (induction s arbitrary: pw) (auto split: option.splits)

lemma findall_Nil_sub: "findall r t = [] \<Longrightarrow> sub r tok t = t"
  by (simp add: findall_def sub_def findall_search no_search_sub)

section \<open>The catalog\<close>

lemma cls_sub_lit [simp]: "cls_sub (\<lambda>c. c = a) Q = Q a"
  by (auto simp: cls_sub_def)

lemma cls_sub_word [simp]:
  "cls_sub digit is_word" "cls_sub hexdigit is_word"
  "cls_sub one_to_five is_word" "cls_sub four_or_seven is_word"
  by (auto simp: cls_sub_def is_word_def hexdigit_def alpha_def lower_def upper_def digit_def
      one_to_five_def four_or_seven_def less_eq_char_def)

lemma cls_sub_key [simp]:
  "cls_sub digit key_char" "cls_sub one_to_five key_char" "cls_sub four_or_seven key_char"
  by (auto simp: cls_sub_def key_char_def digit_def one_to_five_def four_or_seven_def
      less_eq_char_def)

lemmas class_defs = digit_def lower_def upper_def alpha_def hexdigit_def is_space_def is_word_def
  email_local_def email_domain_def phone_sep_def dash_space_def one_to_five_def four_or_seven_def

lemmas form_defs = lit_def opt_def rep_range_def at_least_def eval_nat_numeral

lemma email_facts: "good email_re" "ctxfree email_re"
  by (simp_all add: good_def email_re_def form_defs class_defs key_char_def)

lemma phone_facts: "good phone_re" "ctxfree phone_re"
  by (simp_all add: good_def phone_re_def form_defs class_defs key_char_def)

lemma ssn_facts: "good ssn_re" "bounded ssn_re"
  by (simp_all add: good_def bounded_def ssn_re_def form_defs class_defs key_char_def)

lemma credit_card_facts: "good credit_card_re" "bounded credit_card_re"
  by (simp_all add: good_def bounded_def credit_card_re_def form_defs class_defs key_char_def)

lemma credit_card_formatted_facts:
  "good credit_card_formatted_re" "bounded credit_card_formatted_re"
  by (simp_all add: good_def bounded_def credit_card_formatted_re_def form_defs class_defs
      key_char_def)

lemma ip_v4_facts: "good ip_v4_re" "bounded ip_v4_re"
  by (simp_all add: good_def bounded_def ip_v4_re_def form_defs class_defs key_char_def)

lemma ip_v6_facts: "good ip_v6_re" "bounded ip_v6_re"
  by (simp_all add: good_def bounded_def ip_v6_re_def form_defs class_defs key_char_def)

lemma catalog_tokens:
  "token ''[EMAIL_REDACTED]''" "token ''[PHONE_REDACTED]''" "token ''[SSN_REDACTED]''"
  "token ''[CC_REDACTED]''" "token ''[IP_REDACTED]''"
  by (simp_all add: token_def key_char_def digit_def)

text \<open>No pattern of the catalog matches the empty string.\<close>

lemma catalog_nonnull: "list_all (\<lambda>p. nonnull (fst (snd p))) PII_PATTERNS"
  using email_facts phone_facts ssn_facts credit_card_facts credit_card_formatted_facts
    ip_v4_facts ip_v6_facts
  by (simp add: PII_PATTERNS_def good_def)

section \<open>Redacting twice\<close>

text \<open>The text after one pattern of the loop of \<^verbatim>\<open>redact_pii\<close>.\<close>

definition sub_step :: "string \<Rightarrow> string \<times> regex \<times> string \<Rightarrow> string" where
  "sub_step t p = sub (fst (snd p)) (snd (snd p)) t"

lemma apply_patterns_text:
  "fst (apply_patterns ps (t, rs, cs)) = foldl sub_step t ps"
proof (induction ps arbitrary: t rs cs)
  case Nil
  show ?case by simp
next
  case (Cons p ps)
  obtain n r tok where p: "p = (n, r, tok)" by (cases p)
  show ?case
  proof (cases "findall r t = []")
    case True
    with Cons.IH [of t rs cs] p show ?thesis
      by (simp add: sub_step_def findall_Nil_sub)
  next
    case False
    with Cons.IH p show ?thesis by (simp add: sub_step_def Let_def)
  qed
qed

lemma apply_patterns_clean:
  "list_all (\<lambda>p. \<not> search (fst (snd p)) t) ps \<Longrightarrow> apply_patterns ps (t, rs, cs) = (t, rs, cs)"
proof (induction ps)
  case Nil
  show ?case by simp
next
  case (Cons p ps)
  obtain n r tok where p: "p = (n, r, tok)" by (cases p)
  with Cons.prems have "findall r t = []"
    by (simp add: findall_def search_def findall_search)
  with Cons p show ?case by simp
qed

text \<open>A pattern that finds nothing still finds nothing after the later patterns have run.\<close>

definition keeps :: "regex \<Rightarrow> string \<times> regex \<times> string \<Rightarrow> bool" where
  "keeps ri p = (good (fst (snd p)) \<and> token (snd (snd p))
     \<and> (ctxfree ri \<or> (bounded ri \<and> bounded (fst (snd p)))))"

lemma clean_kept:
  "good ri \<Longrightarrow> list_all (keeps ri) ps \<Longrightarrow> \<not> search ri t \<Longrightarrow> \<not> search ri (foldl sub_step t ps)"
proof (induction ps arbitrary: t)
  case Nil
  then show ?case by simp
next
  case (Cons p ps)
  from Cons.prems(2) have k: "good (fst (snd p))" "token (snd (snd p))"
    "ctxfree ri \<or> (bounded ri \<and> bounded (fst (snd p)))"
    by (simp_all add: keeps_def)
  have "\<not> search ri (sub_step t p)"
    unfolding search_def sub_step_def sub_def
    by (rule sub_from_clean [OF Cons.prems(1) k]) (use Cons.prems(3) in \<open>simp_all add: search_def\<close>)
  with Cons.IH [of "sub_step t p"] Cons.prems(1,2) show ?case by simp
qed

fun chain_ok :: "(string \<times> regex \<times> string) list \<Rightarrow> bool" where
  "chain_ok [] = True"
| "chain_ok (p # ps) = (good (fst (snd p)) \<and> keeps (fst (snd p)) p
     \<and> list_all (keeps (fst (snd p))) ps \<and> chain_ok ps)"

lemma chain_clean:
  "chain_ok ps \<Longrightarrow> list_all (\<lambda>p. \<not> search (fst (snd p)) (foldl sub_step t ps)) ps"
proof (induction ps arbitrary: t)
  case Nil
  show ?case by simp
next
  case (Cons p ps)
  let ?r = "fst (snd p)"
  from Cons.prems have g: "good ?r" and k: "keeps ?r p" and ks: "list_all (keeps ?r) ps"
    and c: "chain_ok ps" by simp_all
  from k have k': "token (snd (snd p))" "ctxfree ?r \<or> (bounded ?r \<and> bounded ?r)"
    by (auto simp: keeps_def)
  have "\<not> search ?r (sub_step t p)"
    unfolding search_def sub_step_def sub_def
    by (rule sub_from_clean [OF g g k']) simp_all
  from clean_kept [OF g ks this] have "\<not> search ?r (foldl sub_step (sub_step t p) ps)" .
  with Cons.IH [OF c, of "sub_step t p"] show ?case by simp
qed

lemma catalog_chain: "chain_ok PII_PATTERNS"
  by (simp add: PII_PATTERNS_def keeps_def email_facts phone_facts ssn_facts credit_card_facts
      credit_card_formatted_facts ip_v4_facts ip_v6_facts catalog_tokens)

lemma redacted_default:
  "redacted (redact_pii x None) = foldl sub_step x PII_PATTERNS"
proof -
  obtain r rs cs where a: "apply_patterns PII_PATTERNS (x, [], []) = (r, rs, cs)"
    by (cases "apply_patterns PII_PATTERNS (x, [], [])") auto
  with apply_patterns_text [of PII_PATTERNS x "[]" "[]"] have "r = foldl sub_step x PII_PATTERNS"
    by simp
  with a show ?thesis
    by (simp add: redact_pii_def default_config_def select_patterns_def)
qed

lemma redacted_clean:
  "list_all (\<lambda>p. \<not> search (fst (snd p)) (redacted (redact_pii x None))) PII_PATTERNS"
  unfolding redacted_default by (rule chain_clean [OF catalog_chain])

text \<open>
  Claim C4. Redaction under the default configuration (all patterns, enabled) is
  idempotent: redacting the redacted text of any input gives that redacted text again.
  The reason is the second half of the statement: no pattern of the catalog matches
  anywhere in a redacted text, neither inside a replacement token, nor in the text left
  around the tokens, nor across the two.
\<close>

theorem redact_pii_idempotent:
  "redacted (redact_pii (redacted (redact_pii x None)) None) = redacted (redact_pii x None)
   \<and> list_all (\<lambda>p. \<not> search (fst (snd p)) (redacted (redact_pii x None))) PII_PATTERNS"
proof -
  let ?y = "redacted (redact_pii x None)"
  have "apply_patterns PII_PATTERNS (?y, [], []) = (?y, [], [])"
    by (rule apply_patterns_clean [OF redacted_clean])
  then have "redacted (redact_pii ?y None) = ?y"
    by (simp add: redact_pii_def [of ?y] default_config_def select_patterns_def)
  with redacted_clean [of x] show ?thesis by simp
qed

section \<open>The result record of a redaction\<close>

lemma set_update_subset: "set (AList.update k v al) \<subseteq> insert (k, v) (set al)"
  by (induction al) auto

text \<open>What the loop of \<^verbatim>\<open>redact_pii\<close> keeps true of the summaries and the counts.\<close>

definition tally_ok :: "string list \<Rightarrow> (string \<times> nat) list \<Rightarrow> bool" where
  "tally_ok reds cnts = ((reds = []) = (cnts = []) \<and> list_all (\<lambda>p. 0 < snd p) cnts)"

lemma apply_patterns_tally:
  "tally_ok reds cnts \<Longrightarrow> apply_patterns ps (t, reds, cnts) = (t', reds', cnts') \<Longrightarrow>
     tally_ok reds' cnts'"
proof (induction ps arbitrary: t reds cnts)
  case Nil
  then show ?case by simp
next
  case (Cons p ps)
  obtain n r tok where p: "p = (n, r, tok)" by (cases p)
  show ?case
  proof (cases "findall r t = []")
    case True
    with Cons p show ?thesis by simp
  next
    case False
    let ?c = "length (findall r t)"
    from False have pos: "0 < ?c" by simp
    from Cons.prems(1) pos set_update_subset [of n ?c cnts]
    have "tally_ok (reds @ [n @ '': '' @ str_nat ?c @ '' instance(s)'']) (AList.update n ?c cnts)"
      by (auto simp: tally_ok_def list_all_iff)
    from Cons.IH [OF this] Cons.prems(2) p False show ?thesis by (simp add: Let_def)
  qed
qed

text \<open>
  Claim C8. For every input and every configuration (absent, disabled, any list of pattern
  names), the result of \<^verbatim>\<open>redact_pii\<close> has \<open>has_pii\<close> true exactly when the list of
  redactions is not empty, and that list is not empty exactly when the counts dictionary is
  not empty and every count in it is positive.
\<close>

theorem redact_pii_result_invariant:
  "has_pii (redact_pii content cfg) = (redactions (redact_pii content cfg) \<noteq> [])
   \<and> (redactions (redact_pii content cfg) \<noteq> []) =
       (counts (redact_pii content cfg) \<noteq> []
        \<and> list_all (\<lambda>p. 0 < snd p) (counts (redact_pii content cfg)))"
proof -
  define config where "config = (case cfg of None \<Rightarrow> default_config | Some c \<Rightarrow> c)"
  show ?thesis
  proof (cases "enabled config")
    case False
    then show ?thesis by (simp add: redact_pii_def config_def)
  next
    case True
    obtain t reds cnts where a:
      "apply_patterns (select_patterns (patterns config)) (content, [], []) = (t, reds, cnts)"
      by (cases "apply_patterns (select_patterns (patterns config)) (content, [], [])") auto
    have "tally_ok [] []" by (simp add: tally_ok_def)
    from apply_patterns_tally [OF this a] have "tally_ok reds cnts" .
    with a True show ?thesis
      by (auto simp: redact_pii_def config_def [symmetric] tally_ok_def)
  qed
qed

section \<open>Selecting the patterns\<close>

lemma select_patterns_unknown:
  "names \<noteq> [] \<Longrightarrow> list_all (\<lambda>n. n \<notin> set get_available_patterns) names \<Longrightarrow>
     select_patterns (Some names) = []"
  by (auto simp: select_patterns_def get_available_patterns_def filter_empty_conv list_all_iff)

text \<open>
  Claim C10. An empty \<open>patterns\<close> list selects the whole catalog, as an absent one does,
  for \<^verbatim>\<open>redact_pii\<close> and for \<^verbatim>\<open>contains_pii\<close>. A list that is not empty and holds only
  names outside the catalog selects no pattern: \<^verbatim>\<open>redact_pii\<close> returns the input unchanged
  with no redactions, no counts and \<open>has_pii\<close> false, and \<^verbatim>\<open>contains_pii\<close> returns false.
\<close>

theorem patterns_empty_or_unknown:
  "redact_pii content (Some (cfg\<lparr>patterns := Some []\<rparr>))
     = redact_pii content (Some (cfg\<lparr>patterns := None\<rparr>))
   \<and> contains_pii content (Some []) = contains_pii content None
   \<and> select_patterns (Some []) = PII_PATTERNS
   \<and> (names \<noteq> [] \<and> list_all (\<lambda>n. n \<notin> set get_available_patterns) names \<longrightarrow>
        select_patterns (Some names) = []
        \<and> redact_pii content (Some (cfg\<lparr>patterns := Some names\<rparr>))
            = \<lparr>redacted = content, redactions = [], counts = [], has_pii = False\<rparr>
        \<and> contains_pii content (Some names) = False)"
  by (auto simp: redact_pii_def contains_pii_def select_patterns_unknown)
    (simp_all add: select_patterns_def)

theorem patterns_empty_or_unknown_witness:
  "[''passport''] \<noteq> [] \<and> list_all (\<lambda>n. n \<notin> set get_available_patterns) [''passport'']
   \<and> select_patterns (Some [''passport'']) = []
   \<and> redact_pii ''call 555-123-4567'' (Some (default_config\<lparr>patterns := Some [''passport'']\<rparr>))
       = \<lparr>redacted = ''call 555-123-4567'', redactions = [], counts = [], has_pii = False\<rparr>
   \<and> contains_pii ''call 555-123-4567'' (Some [''passport'']) = False
   \<and> contains_pii ''call 555-123-4567'' (Some []) = True
   \<and> redacted (redact_pii ''call 555-123-4567'' (Some (default_config\<lparr>patterns := Some []\<rparr>)))
       = ''call [PHONE_REDACTED]''"
proof -
  have h: "list_all (\<lambda>n. n \<notin> set get_available_patterns) [''passport'']"
    by (simp add: get_available_patterns_def PII_PATTERNS_def)
  have a: "redacted (redact_pii ''call 555-123-4567'' (Some (default_config\<lparr>patterns := None\<rparr>)))
       = ''call [PHONE_REDACTED]''"
    by code_simp
  have b: "contains_pii ''call 555-123-4567'' None = True"
    by code_simp
  from h a b
    patterns_empty_or_unknown [of "''call 555-123-4567''" default_config "[''passport'']"]
  show ?thesis by simp
qed

section \<open>Logging a message with a phone number\<close>

lemma redact_phone_call:
  "redact_pii ''call 555-123-4567'' (Some default_config)
     = \<lparr>redacted = ''call [PHONE_REDACTED]'', redactions = [''phone: 1 instance(s)''],
        counts = [(''phone'', 1)], has_pii = True\<rparr>"
  by code_simp

text \<open>A field of the JSON body of a request.\<close>

definition sent_field :: "request \<Rightarrow> string \<Rightarrow> json option" where
  "sent_field req k = (case json_body req of Some (JObj d) \<Rightarrow> map_of d k | _ \<Rightarrow> None)"

text \<open>Dropping the absent fields of a payload keeps every field that is present.\<close>

lemma field_kept:
  "distinct (map fst kvs) \<Longrightarrow> map_of kvs k = Some v \<Longrightarrow> keep (k, v) \<Longrightarrow>
     map_of (filter keep kvs) k = Some v"
proof (induction kvs)
  case Nil
  then show ?case by simp
next
  case (Cons kv kvs)
  show ?case
  proof (cases "fst kv = k")
    case True
    with Cons.prems(2) have "kv = (k, v)" by (cases kv) simp
    with Cons.prems(3) show ?thesis by simp
  next
    case False
    with Cons.prems have "map_of kvs k = Some v" and "distinct (map fst kvs)"
      by (cases kv; simp)+
    from Cons.IH [OF this(2) this(1) Cons.prems(3)] False show ?thesis
      by (cases kv) simp
  qed
qed

text \<open>
  Claim C5. With redaction on (by the logger's setting, or by the override of the call),
  after \<^verbatim>\<open>start_trace\<close> the call \<^verbatim>\<open>log(role="user", content="call 555-123-4567")\<close> posts a
  payload whose \<^verbatim>\<open>content\<close> is \<^verbatim>\<open>call [PHONE_REDACTED]\<close> and whose \<^verbatim>\<open>metadata\<close> holds, under
  \<^verbatim>\<open>pii_redactions\<close>, the list with the one summary \<^verbatim>\<open>phone: 1 instance(s)\<close>; whatever the
  other arguments, the trace and the answer of the server are.
\<close>

theorem log_redacts_phone:
  assumes "case ov of None \<Rightarrow> logger_redact_pii_enabled lg | Some b \<Rightarrow> b"
    and "req = fst (snd (logger_log (fst (start_trace lg uuid pk tid vn)) uuid' post ''user''
           ''call 555-123-4567'' model input_tokens output_tokens duration_ms metadata ov))"
  shows "sent_field req ''content'' = Some (JStr ''call [PHONE_REDACTED]'')
    \<and> (\<exists>md. sent_field req ''metadata'' = Some (JObj md)
          \<and> map_of md ''pii_redactions'' = Some (JList [JStr ''phone: 1 instance(s)'']))"
proof -
  let ?lg = "fst (start_trace lg uuid pk tid vn)"
  let ?md = "AList.update ''pii_redactions'' (JList [JStr ''phone: 1 instance(s)''])
                 (case metadata of None \<Rightarrow> [] | Some d \<Rightarrow> d)"
  from assms(1) have sr:
    "(case ov of None \<Rightarrow> logger_redact_pii_enabled ?lg | Some b \<Rightarrow> b) = True"
    by (simp add: start_trace_def Let_def split: option.splits)
  have sc: "safe_content True ''call 555-123-4567'' metadata = (''call [PHONE_REDACTED]'', Some ?md)"
    by (simp add: safe_content_def redact_phone_call)
  define fields where "fields =
     [(''traceId'', JStr (or_else (trace_id ?lg) uuid')),
      (''promptKey'', JStr (or_else (prompt_key ?lg) ''unknown'')),
      (''versionNumber'', opt_int (trace_version_number ?lg)),
      (''type'', JStr ''message''),
      (''role'', JStr ''user''),
      (''content'', JStr ''call [PHONE_REDACTED]''),
      (''model'', opt_str model),
      (''inputTokens'', opt_int input_tokens),
      (''outputTokens'', opt_int output_tokens),
      (''durationMs'', opt_int duration_ms),
      (''source'', JStr (source ?lg)),
      (''metadata'', opt_dict (Some ?md))]"
  have body: "json_body req = Some (JObj (filter (\<lambda>(k, v). v \<noteq> JNull) fields))"
    unfolding assms(2) logger_log_def sr Let_def sc fields_def prod.case by simp
  have d: "distinct (map fst fields)" by (simp add: fields_def)
  have c: "map_of fields ''content'' = Some (JStr ''call [PHONE_REDACTED]'')"
    by (simp add: fields_def)
  have m: "map_of fields ''metadata'' = Some (JObj ?md)"
    by (simp add: fields_def opt_dict_def)
  have pr: "map_of ?md ''pii_redactions'' = Some (JList [JStr ''phone: 1 instance(s)''])"
    by (simp add: update_conv')
  have "map_of (filter (\<lambda>(k, v). v \<noteq> JNull) fields) ''content''
      = Some (JStr ''call [PHONE_REDACTED]'')"
    by (rule field_kept [OF d c]) simp
  moreover have "map_of (filter (\<lambda>(k, v). v \<noteq> JNull) fields) ''metadata'' = Some (JObj ?md)"
    by (rule field_kept [OF d m]) simp
  ultimately show ?thesis using body pr by (simp add: sent_field_def)
qed

text \<open>A logger that has no trace yet, and a server that accepts every log.\<close>

definition fresh_logger :: logger where
  "fresh_logger = \<lparr>logger_api_key = ''fp_proj_xxx'', logger_base_url = DEFAULT_BASE_URL,
     source = ''python-sdk'', logger_redact_pii_enabled = True, logger_timeout = ''30.0'',
     trace_id = None, prompt_key = None, trace_version_number = None\<rparr>"

definition accepting_post :: "request \<Rightarrow> outcome" where
  "accepting_post req = Response 200 (Some (JObj []))"

theorem log_redacts_phone_witness:
  "(case None of None \<Rightarrow> logger_redact_pii_enabled fresh_logger | Some b \<Rightarrow> b)
   \<and> sent_field (fst (snd (logger_log
         (fst (start_trace fresh_logger ''uuid-1'' ''my-prompt'' None None)) ''uuid-2''
         accepting_post ''user'' ''call 555-123-4567'' None None None None None None)))
       ''content'' = Some (JStr ''call [PHONE_REDACTED]'')
   \<and> sent_field (fst (snd (logger_log
         (fst (start_trace fresh_logger ''uuid-1'' ''my-prompt'' None None)) ''uuid-2''
         accepting_post ''user'' ''call 555-123-4567'' None None None None None None)))
       ''metadata'' = Some (JObj [(''pii_redactions'', JList [JStr ''phone: 1 instance(s)''])])"
proof -
  let ?req = "fst (snd (logger_log
         (fst (start_trace fresh_logger ''uuid-1'' ''my-prompt'' None None)) ''uuid-2''
         accepting_post ''user'' ''call 555-123-4567'' None None None None None None))"
  have a: "case None of None \<Rightarrow> logger_redact_pii_enabled fresh_logger | Some b \<Rightarrow> b"
    by (simp add: fresh_logger_def)
  from log_redacts_phone [OF a refl, of "''uuid-1''" "''my-prompt''" None None "''uuid-2''"
      accepting_post None None None None None]
  obtain md where c: "sent_field ?req ''content'' = Some (JStr ''call [PHONE_REDACTED]'')"
    and m: "sent_field ?req ''metadata'' = Some (JObj md)"
    by blast
  have "sent_field ?req ''metadata''
      = Some (JObj [(''pii_redactions'', JList [JStr ''phone: 1 instance(s)''])])"
    by (simp add: sent_field_def logger_log_def Let_def split_beta safe_content_def
        redact_phone_call fresh_logger_def start_trace_def or_else_def opt_int_def opt_str_def
        opt_dict_def)
  with a c show ?thesis by simp
qed

section \<open>Example clients, networks and answers\<close>

definition demo_client :: client where
  "demo_client = \<lparr>api_key = ''fp_proj_xxx'', base_url = DEFAULT_BASE_URL, timeout = ''30.0'',
     retries = 3, redact_pii_enabled = True\<rparr>"

definition world0 :: world where
  "world0 = \<lparr>calls = 0, sleeps = [], draws = 0\<rparr>"

definition demo_body :: json where
  "demo_body = JObj [(''key'', JStr ''my-prompt''), (''name'', JStr ''My prompt''),
     (''versionNumber'', JInt 2), (''systemPrompt'', JStr ''You are helpful.''),
     (''updatedAt'', JInt 1700000000000)]"

definition demo_prompt :: Prompt where
  "demo_prompt = \<lparr>key = JStr ''my-prompt'', name = JStr ''My prompt'', version_number = JInt 2,
     system_prompt = JStr ''You are helpful.'', updated_at = JInt 1700000000000,
     description = JNull, purpose = JNull, expected_behavior = JNull, input_format = JNull,
     output_format = JNull, constraints = JNull, use_cases = JNull, additional_notes = JNull,
     tools_notes = JNull\<rparr>"

lemma from_dict_demo: "from_dict demo_body = Inr demo_prompt"
  by (simp add: from_dict_def demo_body_def demo_prompt_def dict_get_def)

definition flaky_env :: env where
  "flaky_env = \<lparr>transport = (\<lambda>n req. if n < 2 then Response 500 None
                                        else Response 200 (Some demo_body)),
                 random = (\<lambda>n. 0)\<rparr>"

definition timeout_env :: env where
  "timeout_env = \<lparr>transport = (\<lambda>n req. TimeoutException ''timed out''), random = (\<lambda>n. 0)\<rparr>"

definition failing_env :: env where
  "failing_env = \<lparr>transport = (\<lambda>n req. Response 500 None), random = (\<lambda>n. 0)\<rparr>"

section \<open>Validation\<close>

text \<open>
  Claim C6. A key that is empty or longer than 256 characters, or a version that is given
  and is not a positive integer, makes \<^verbatim>\<open>get_prompt\<close> raise \<^verbatim>\<open>INVALID_INPUT\<close> with status
  400 and leave the world as it was: no network call, no sleep.
\<close>

theorem get_prompt_invalid_input:
  assumes "k = [] \<or> 256 < length k \<or> (\<exists>v. version = Some v \<and> v < 1)"
  shows "\<exists>msg. get_prompt cl e k version w
           = (Inl (Raised (ForPromptError (JStr msg) 400 INVALID_INPUT)), w)"
  using assms by (auto simp: get_prompt_def invalid_input_def)

theorem get_prompt_invalid_input_witness:
  "get_prompt demo_client flaky_env [] None world0
     = (Inl (Raised (ForPromptError (JStr ''Prompt key must be a non-empty string'') 400
          INVALID_INPUT)), world0)
   \<and> get_prompt demo_client flaky_env (replicate 257 CHR ''a'') None world0
     = (Inl (Raised (ForPromptError (JStr ''Prompt key must be 256 characters or less'') 400
          INVALID_INPUT)), world0)
   \<and> get_prompt demo_client flaky_env ''my-prompt'' (Some 0) world0
     = (Inl (Raised (ForPromptError (JStr ''Version must be a positive integer'') 400
          INVALID_INPUT)), world0)"
proof -
  from get_prompt_invalid_input [of "[]" None demo_client flaky_env world0]
  obtain m1 where a: "get_prompt demo_client flaky_env [] None world0
      = (Inl (Raised (ForPromptError (JStr m1) 400 INVALID_INPUT)), world0)" by auto
  from get_prompt_invalid_input [of "replicate 257 CHR ''a''" None demo_client flaky_env world0]
  obtain m2 where b: "get_prompt demo_client flaky_env (replicate 257 CHR ''a'') None world0
      = (Inl (Raised (ForPromptError (JStr m2) 400 INVALID_INPUT)), world0)" by auto
  from get_prompt_invalid_input [of "''my-prompt''" "Some 0" demo_client flaky_env world0]
  obtain m3 where c: "get_prompt demo_client flaky_env ''my-prompt'' (Some 0) world0
      = (Inl (Raised (ForPromptError (JStr m3) 400 INVALID_INPUT)), world0)" by auto
  from a have "m1 = ''Prompt key must be a non-empty string''"
    by (simp add: get_prompt_def invalid_input_def)
  moreover from b have "m2 = ''Prompt key must be 256 characters or less''"
    by (simp add: get_prompt_def invalid_input_def)
  moreover from c have "m3 = ''Version must be a positive integer''"
    by (simp add: get_prompt_def invalid_input_def)
  ultimately show ?thesis using a b c by simp
qed

section \<open>Timeouts\<close>

text \<open>
  Claim C2. When the first attempt times out, the executor raises \<^verbatim>\<open>TIMEOUT\<close> after that
  one network call, with no sleep and no further attempt, whatever the number of attempts
  configured, as long as there is an attempt at all (\<open>retries\<close> at least 1).
\<close>

theorem timeout_not_retried:
  assumes "1 \<le> retries cl"
    and "transport e (calls w) (build_request cl m path ps js) = TimeoutException msg"
  shows "make_request cl e m path ps js w
           = (Inl (Raised (timeout_error cl)), w\<lparr>calls := calls w + 1\<rparr>)
         \<and> code (timeout_error cl) = TIMEOUT"
proof -
  from assms(1) obtain n where "nat (retries cl) = Suc n"
    by (cases "nat (retries cl)") auto
  with assms(2) show ?thesis
    by (simp add: make_request_def timeout_error_def)
qed

theorem timeout_not_retried_witness:
  "make_request demo_client timeout_env ''GET'' ''/api/prompts'' None None world0
     = (Inl (Raised (ForPromptError (JStr ''Request timeout after 30.0s'') 408 TIMEOUT)),
        \<lparr>calls = 1, sleeps = [], draws = 0\<rparr>)"
proof -
  have a: "1 \<le> retries demo_client" by (simp add: demo_client_def)
  have b: "transport timeout_env (calls world0)
      (build_request demo_client ''GET'' ''/api/prompts'' None None) = TimeoutException ''timed out''"
    by (simp add: timeout_env_def)
  from timeout_not_retried [OF a b] show ?thesis
    by (simp add: timeout_error_def demo_client_def world0_def)
qed

section \<open>Retrying\<close>

lemma wait_sleeps:
  "int a < retries cl - 1 \<Longrightarrow> a < 1024 \<Longrightarrow>
     wait_before_retry cl e a w
       = (Inr (), w\<lparr>sleeps := sleeps w @ [backoff_delay a (random e (draws w))],
                     draws := draws w + 1\<rparr>)"
  by (simp add: wait_before_retry_def get_backoff_delay_def Let_def)

lemma wait_last: "\<not> int a < retries cl - 1 \<Longrightarrow> wait_before_retry cl e a w = (Inr (), w)"
  by (simp add: wait_before_retry_def)

lemma calls_wait [simp]: "calls (snd (wait_before_retry cl e a w)) = calls w"
  by (simp add: wait_before_retry_def Let_def split: sum.splits)

lemma wait_not_raised: "fst (wait_before_retry cl e a w) \<noteq> Inl (Raised err)"
  by (simp add: wait_before_retry_def get_backoff_delay_def Let_def)

text \<open>
  Claim C1. With \<open>retries = 3\<close>, when the network answers 500 to the first two attempts and
  200 with a body that decodes to a prompt to the third, \<^verbatim>\<open>get_prompt\<close> returns that prompt
  after exactly three network calls and two sleeps, the backoff delays of attempts 0 and 1.
\<close>

theorem get_prompt_third_attempt:
  assumes "retries cl = 3"
    and "k \<noteq> []" and "length k \<le> 256" and "case version of None \<Rightarrow> True | Some v \<Rightarrow> 1 \<le> v"
    and "req = build_request cl ''GET'' ''/api/prompts'' (Some (prompt_params k version)) None"
    and "transport e (calls w) req = Response 500 b0"
    and "transport e (calls w + 1) req = Response 500 b1"
    and "transport e (calls w + 2) req = Response 200 (Some body)"
    and "from_dict body = Inr p"
  shows "get_prompt cl e k version w
           = (Inr p, w\<lparr>calls := calls w + 3,
                        sleeps := sleeps w @ [backoff_delay 0 (random e (draws w)),
                                              backoff_delay 1 (random e (draws w + 1))],
                        draws := draws w + 2\<rparr>)"
proof -
  have v: "\<not> (case version of None \<Rightarrow> False | Some v \<Rightarrow> v < 1)"
    using assms(4) by (cases version) auto
  have n: "nat (retries cl) = Suc (Suc (Suc 0))" using assms(1) by simp
  have s0: "int 0 < retries cl - 1" "(0::nat) < 1024" using assms(1) by simp_all
  have s1: "int (Suc 0) < retries cl - 1" "Suc 0 < 1024" using assms(1) by simp_all
  have "make_request cl e ''GET'' ''/api/prompts'' (Some (prompt_params k version)) None w
      = (Inr body, w\<lparr>calls := calls w + 3,
                        sleeps := sleeps w @ [backoff_delay 0 (random e (draws w)),
                                              backoff_delay 1 (random e (draws w + 1))],
                        draws := draws w + 2\<rparr>)"
    unfolding make_request_def n assms(5) [symmetric]
    using assms(6,7,8) by (simp add: wait_sleeps [OF s0] wait_sleeps [OF s1])
  with assms(2,3,9) v show ?thesis by (simp add: get_prompt_def)
qed

theorem get_prompt_third_attempt_witness:
  "get_prompt demo_client flaky_env ''my-prompt'' None world0
     = (Inr demo_prompt,
        \<lparr>calls = 3, sleeps = [backoff_delay 0 0, backoff_delay 1 0], draws = 2\<rparr>)"
proof -
  let ?req = "build_request demo_client ''GET'' ''/api/prompts''
      (Some (prompt_params ''my-prompt'' None)) None"
  have a: "retries demo_client = 3" by (simp add: demo_client_def)
  have t0: "transport flaky_env (calls world0) ?req = Response 500 None"
    and t1: "transport flaky_env (calls world0 + 1) ?req = Response 500 None"
    and t2: "transport flaky_env (calls world0 + 2) ?req = Response 200 (Some demo_body)"
    by (simp_all add: flaky_env_def world0_def)
  have k1: "''my-prompt'' \<noteq> []" and k2: "length ''my-prompt'' \<le> 256"
    and k3: "case None :: int option of None \<Rightarrow> True | Some v \<Rightarrow> 1 \<le> v"
    by simp_all
  from get_prompt_third_attempt [OF a k1 k2 k3 refl t0 t1 t2 from_dict_demo]
  show ?thesis by (simp add: world0_def flaky_env_def)
qed

text \<open>The outcomes after which the executor tries again, and the error it records for each.\<close>

definition retryable :: "outcome \<Rightarrow> bool" where
  "retryable out = (case out of
      Response st body \<Rightarrow> 500 \<le> st \<and> st \<le> 599
    | TimeoutException msg \<Rightarrow> False
    | RequestError msg \<Rightarrow> True)"

definition recorded :: "client \<Rightarrow> outcome \<Rightarrow> ForPromptError" where
  "recorded cl out = (case out of
      Response st body \<Rightarrow> server_error st
    | TimeoutException msg \<Rightarrow> timeout_error cl
    | RequestError msg \<Rightarrow> network_error msg)"

lemma attempts_retryable_step:
  assumes "retryable (transport e (calls w) req)"
    and "wait_before_retry cl e a (w\<lparr>calls := calls w + 1\<rparr>) = (Inr (), w1)"
  shows "attempts cl e req (Suc n) a le w
      = attempts cl e req n (Suc a) (Some (recorded cl (transport e (calls w) req))) w1"
proof (cases "transport e (calls w) req")
  case (Response st body)
  with assms show ?thesis by (simp add: retryable_def recorded_def Let_def)
next
  case (TimeoutException msg)
  with assms show ?thesis by (simp add: retryable_def)
next
  case (RequestError msg)
  with assms show ?thesis by (simp add: recorded_def Let_def)
qed

lemma attempts_all_retryable:
  "\<forall>i<n. retryable (transport e (calls w + i) req) \<Longrightarrow>
   int a + int n = retries cl \<Longrightarrow> retries cl \<le> 1025 \<Longrightarrow>
   (\<exists>w'. attempts cl e req n a le w
      = (Inl (Raised (if n = 0 then (case le of Some err \<Rightarrow> err | None \<Rightarrow> retry_exhausted)
                      else recorded cl (transport e (calls w + n - 1) req))), w')
      \<and> calls w' = calls w + n \<and> length (sleeps w') = length (sleeps w) + (n - 1))"
proof (induction n arbitrary: a le w)
  case 0
  show ?case by (cases le) simp_all
next
  case (Suc n)
  let ?out = "transport e (calls w) req"
  let ?w0 = "w\<lparr>calls := calls w + 1\<rparr>"
  obtain w1 where w1: "w1 = snd (wait_before_retry cl e a ?w0)" by simp
  have wait: "wait_before_retry cl e a ?w0 = (Inr (), w1)"
    and sl: "length (sleeps w1) = length (sleeps w) + (if n = 0 then 0 else 1)"
  proof -
    show "wait_before_retry cl e a ?w0 = (Inr (), w1)"
    proof (cases "n = 0")
      case True
      with Suc.prems(2) have "\<not> int a < retries cl - 1" by simp
      with w1 show ?thesis by (simp add: wait_last)
    next
      case False
      with Suc.prems(2,3) have "int a < retries cl - 1" "a < 1024" by simp_all
      with w1 show ?thesis by (simp add: wait_sleeps)
    qed
    show "length (sleeps w1) = length (sleeps w) + (if n = 0 then 0 else 1)"
    proof (cases "n = 0")
      case True
      with Suc.prems(2) have "\<not> int a < retries cl - 1" by simp
      with w1 True show ?thesis by (simp add: wait_last)
    next
      case False
      with Suc.prems(2,3) have "int a < retries cl - 1" "a < 1024" by simp_all
      with w1 False show ?thesis by (simp add: wait_sleeps)
    qed
  qed
  have cw: "calls w1 = calls w + 1" using w1 by simp
  from Suc.prems(1) have "retryable (transport e (calls w + 0) req)" by blast
  then have r0: "retryable ?out" by simp
  have rest: "\<forall>i<n. retryable (transport e (calls w1 + i) req)"
  proof (intro allI impI)
    fix i assume "i < n"
    then have "Suc i < Suc n" by simp
    with Suc.prems(1) have "retryable (transport e (calls w + Suc i) req)" by blast
    then show "retryable (transport e (calls w1 + i) req)" using cw by simp
  qed
  have idx: "int (Suc a) + int n = retries cl" using Suc.prems(2) by simp
  from Suc.IH [OF rest idx Suc.prems(3), of "Some (recorded cl ?out)"] obtain w' where
    step: "attempts cl e req n (Suc a) (Some (recorded cl ?out)) w1
      = (Inl (Raised (if n = 0 then recorded cl ?out
                      else recorded cl (transport e (calls w1 + n - 1) req))), w')"
    and c: "calls w' = calls w1 + n" and s: "length (sleeps w') = length (sleeps w1) + (n - 1)"
    by auto
  have run: "attempts cl e req (Suc n) a le w
      = attempts cl e req n (Suc a) (Some (recorded cl ?out)) w1"
    by (rule attempts_retryable_step [OF r0 wait])
  have res: "(if n = 0 then recorded cl ?out
              else recorded cl (transport e (calls w1 + n - 1) req))
      = recorded cl (transport e (calls w + Suc n - 1) req)"
    using cw by (cases n) simp_all
  have "attempts cl e req (Suc n) a le w
      = (Inl (Raised (recorded cl (transport e (calls w + Suc n - 1) req))), w')"
    using run step res by (simp only:)
  moreover have "calls w' = calls w + Suc n" using c cw by simp
  moreover have "length (sleeps w') = length (sleeps w) + (Suc n - 1)"
    using s sl by (cases n) simp_all
  ultimately show ?case by (simp del: attempts.simps)
qed

text \<open>
  From 1026 configured attempts on, a run of retryable outcomes does not reach its end:
  the delay after attempt 1024 cannot be computed, and the \<^verbatim>\<open>OverflowError\<close> leaves the
  executor after 1025 calls.
\<close>

lemma attempts_overflow:
  "\<forall>i. retryable (transport e i req) \<Longrightarrow>
   int a + int n = retries cl \<Longrightarrow> 1026 \<le> retries cl \<Longrightarrow> a \<le> 1024 \<Longrightarrow>
   (\<exists>w'. attempts cl e req n a le w = (Inl OverflowError, w')
      \<and> calls w' = calls w + (1025 - a))"
proof (induction n arbitrary: a le w)
  case 0
  then show ?case by simp
next
  case (Suc n)
  let ?out = "transport e (calls w) req"
  let ?w0 = "w\<lparr>calls := calls w + 1\<rparr>"
  from Suc.prems(1) have r0: "retryable ?out" by blast
  from Suc.prems(2,3,4) have lt: "int a < retries cl - 1" by simp
  show ?case
  proof (cases "a = 1024")
    case True
    with lt have wait: "wait_before_retry cl e a ?w0 = (Inl OverflowError, ?w0\<lparr>draws := draws w + 1\<rparr>)"
      by (simp add: wait_before_retry_def get_backoff_delay_def Let_def)
    have "attempts cl e req (Suc n) a le w = (Inl OverflowError, ?w0\<lparr>draws := draws w + 1\<rparr>)"
      using r0 wait by (cases ?out) (simp_all add: retryable_def Let_def)
    with True show ?thesis by simp
  next
    case False
    with Suc.prems(4) have a: "a < 1024" by simp
    let ?w1 = "?w0\<lparr>sleeps := sleeps ?w0 @ [backoff_delay a (random e (draws ?w0))],
                   draws := draws ?w0 + 1\<rparr>"
    have wait: "wait_before_retry cl e a ?w0 = (Inr (), ?w1)"
      by (rule wait_sleeps [OF lt a])
    have idx: "int (Suc a) + int n = retries cl" using Suc.prems(2) by simp
    from a have le: "Suc a \<le> 1024" by simp
    from Suc.IH [OF Suc.prems(1) idx Suc.prems(3) le, of "Some (recorded cl ?out)" ?w1]
    obtain w' where
      step: "attempts cl e req n (Suc a) (Some (recorded cl ?out)) ?w1 = (Inl OverflowError, w')"
      and c: "calls w' = calls ?w1 + (1025 - Suc a)"
      by blast
    have "attempts cl e req (Suc n) a le w = (Inl OverflowError, w')"
      using attempts_retryable_step [OF r0 wait, of n le] step by (simp only:)
    moreover from c a have "calls w' = calls w + (1025 - a)" by simp
    ultimately show ?thesis by (simp del: attempts.simps)
  qed
qed

definition no_retry_client :: client where
  "no_retry_client = demo_client\<lparr>retries := 0\<rparr>"

lemma str_int_500: "str_int 500 = ''500''"
  by code_simp

text \<open>
  Claim C3 as stated fails: with three attempts that all get a 500, the executor has made
  its three calls and raises the last recorded error, of kind \<^verbatim>\<open>SERVER_ERROR\<close>, not an
  error of kind \<^verbatim>\<open>RETRY_EXHAUSTED\<close>.
\<close>

theorem retry_exhausted_counterexample:
  "fst (make_request demo_client failing_env ''GET'' ''/api/prompts'' None None world0)
     = Inl (Raised (ForPromptError (JStr ''Server error: 500'') 500 SERVER_ERROR))
   \<and> calls (snd (make_request demo_client failing_env ''GET'' ''/api/prompts'' None None world0)) = 3
   \<and> SERVER_ERROR \<noteq> RETRY_EXHAUSTED"
proof -
  have n: "nat (retries demo_client) = Suc (Suc (Suc 0))" by (simp add: demo_client_def)
  have s0: "int 0 < retries demo_client - 1" "(0::nat) < 1024" by (simp_all add: demo_client_def)
  have s1: "int (Suc 0) < retries demo_client - 1" "Suc 0 < 1024"
    by (simp_all add: demo_client_def)
  have s2: "\<not> int (Suc (Suc 0)) < retries demo_client - 1" by (simp add: demo_client_def)
  show ?thesis
    unfolding make_request_def n
    by (simp add: failing_env_def world0_def server_error_def str_int_500
        wait_sleeps [OF s0] wait_sleeps [OF s1] wait_last [OF s2])
qed

text \<open>
  Claim C3, amended. When every attempt ends in a retryable outcome (a 5xx response or a
  request error) and between 1 and 1025 attempts are configured, the executor makes all its
  attempts, sleeps between them and raises the error recorded for the last one, of kind
  \<^verbatim>\<open>SERVER_ERROR\<close> or \<^verbatim>\<open>NETWORK_ERROR\<close>. It raises \<^verbatim>\<open>RETRY_EXHAUSTED\<close> only when no attempt
  is configured (\<open>retries\<close> at most 0), without any network call.
\<close>

theorem retries_exhausted_last_error:
  "(1 \<le> retries cl \<and> retries cl \<le> 1025
     \<and> (\<forall>i<nat (retries cl). retryable (transport e (calls w + i) (build_request cl m path ps js)))
    \<longrightarrow> (\<exists>w'. make_request cl e m path ps js w
            = (Inl (Raised (recorded cl (transport e (calls w + nat (retries cl) - 1)
                                          (build_request cl m path ps js)))), w')
          \<and> calls w' = calls w + nat (retries cl)
          \<and> length (sleeps w') = length (sleeps w) + (nat (retries cl) - 1))
        \<and> code (recorded cl (transport e (calls w + nat (retries cl) - 1)
                               (build_request cl m path ps js)))
            \<in> {SERVER_ERROR, NETWORK_ERROR})
   \<and> (retries cl \<le> 0 \<longrightarrow>
        make_request cl e m path ps js w = (Inl (Raised retry_exhausted), w))"
proof (intro conjI impI)
  assume a: "1 \<le> retries cl \<and> retries cl \<le> 1025
     \<and> (\<forall>i<nat (retries cl). retryable (transport e (calls w + i) (build_request cl m path ps js)))"
  let ?req = "build_request cl m path ps js"
  let ?n = "nat (retries cl)"
  from a have idx: "int 0 + int ?n = retries cl" by simp
  from a have all: "\<forall>i<?n. retryable (transport e (calls w + i) ?req)" by simp
  from a have pos: "?n \<noteq> 0" and bound: "retries cl \<le> 1025" by simp_all
  from attempts_all_retryable [OF all idx bound, of None] pos
  show "\<exists>w'. make_request cl e m path ps js w
            = (Inl (Raised (recorded cl (transport e (calls w + ?n - 1) ?req))), w')
          \<and> calls w' = calls w + ?n
          \<and> length (sleeps w') = length (sleeps w) + (?n - 1)"
    by (simp add: make_request_def del: attempts.simps)
  from pos have "?n - 1 < ?n" by simp
  with all have "retryable (transport e (calls w + (?n - 1)) ?req)" by blast
  moreover from pos have "calls w + (?n - 1) = calls w + ?n - 1" by simp
  ultimately have "retryable (transport e (calls w + ?n - 1) ?req)" by simp
  then show "code (recorded cl (transport e (calls w + ?n - 1) ?req))
      \<in> {SERVER_ERROR, NETWORK_ERROR}"
    by (cases "transport e (calls w + ?n - 1) ?req")
      (simp_all add: retryable_def recorded_def server_error_def network_error_def)
next
  assume "retries cl \<le> 0"
  then have "nat (retries cl) = 0" by simp
  then show "make_request cl e m path ps js w = (Inl (Raised retry_exhausted), w)"
    by (simp add: make_request_def)
qed

theorem retries_exhausted_last_error_witness:
  "1 \<le> retries demo_client \<and> retries demo_client \<le> 1025
   \<and> list_all (\<lambda>i. retryable (transport failing_env (calls world0 + i)
         (build_request demo_client ''GET'' ''/api/prompts'' None None)))
       [0..<nat (retries demo_client)]
   \<and> fst (make_request demo_client failing_env ''GET'' ''/api/prompts'' None None world0)
       = Inl (Raised (server_error 500))
   \<and> calls (snd (make_request demo_client failing_env ''GET'' ''/api/prompts'' None None world0))
       = 3
   \<and> length (sleeps (snd (make_request demo_client failing_env ''GET'' ''/api/prompts'' None None
         world0))) = 2
   \<and> retries no_retry_client \<le> 0
   \<and> make_request no_retry_client failing_env ''GET'' ''/api/prompts'' None None world0
       = (Inl (Raised (ForPromptError (JStr ''Request failed after retries'') 500
            RETRY_EXHAUSTED)), world0)"
proof -
  let ?run = "make_request demo_client failing_env ''GET'' ''/api/prompts'' None None world0"
  have a: "1 \<le> retries demo_client" "retries demo_client \<le> 1025"
    by (simp_all add: demo_client_def)
  have b: "\<forall>i<nat (retries demo_client). retryable (transport failing_env (calls world0 + i)
         (build_request demo_client ''GET'' ''/api/prompts'' None None))"
    by (simp add: failing_env_def retryable_def)
  have c: "retries no_retry_client \<le> 0" by (simp add: no_retry_client_def)
  from a b
    retries_exhausted_last_error [of demo_client failing_env world0 "''GET''" "''/api/prompts''"
      None None]
  obtain w' where r: "?run = (Inl (Raised (recorded demo_client
        (transport failing_env (calls world0 + nat (retries demo_client) - 1)
          (build_request demo_client ''GET'' ''/api/prompts'' None None)))), w')"
    and cw: "calls w' = calls world0 + nat (retries demo_client)"
    and sw: "length (sleeps w') = length (sleeps world0) + (nat (retries demo_client) - 1)"
    by blast
  from r have r1: "fst ?run = Inl (Raised (server_error 500))"
    by (simp add: failing_env_def recorded_def)
  from r cw have r2: "calls (snd ?run) = 3" by (simp add: demo_client_def world0_def)
  from r sw have r3: "length (sleeps (snd ?run)) = 2" by (simp add: demo_client_def world0_def)
  from c
    retries_exhausted_last_error [of no_retry_client failing_env world0 "''GET''"
      "''/api/prompts''" None None]
  have r4: "make_request no_retry_client failing_env ''GET'' ''/api/prompts'' None None world0
       = (Inl (Raised retry_exhausted), world0)"
    by simp
  have r5: "list_all (\<lambda>i. retryable (transport failing_env (calls world0 + i)
         (build_request demo_client ''GET'' ''/api/prompts'' None None)))
       [0..<nat (retries demo_client)]"
    using b by (simp add: list_all_iff)
  from a c r1 r2 r3 r4 r5 show ?thesis by (simp add: retry_exhausted_def)
qed

section \<open>The status of an error\<close>

text \<open>
  The kind and the status of the error that the executor makes of one HTTP exchange: the
  status of the response when there is one, 408 for a timeout, 0 for another request error.
\<close>

definition fetch_error_from :: "outcome \<Rightarrow> ForPromptError \<Rightarrow> bool" where
  "fetch_error_from out err =
     (case out of
        Response st body \<Rightarrow>
          status_code err = st
          \<and> (if 400 \<le> st \<and> st < 500
              then code err = (if st = 404 then PROMPT_NOT_FOUND else API_ERROR)
              else \<not> (200 \<le> st \<and> st < 300) \<and> code err = SERVER_ERROR)
      | TimeoutException msg \<Rightarrow> status_code err = 408 \<and> code err = TIMEOUT
      | RequestError msg \<Rightarrow> status_code err = 0 \<and> code err = NETWORK_ERROR)"

text \<open>The same for the logger: the status of a response that is not a success, 0 otherwise.\<close>

definition log_error_from :: "outcome \<Rightarrow> ForPromptError \<Rightarrow> bool" where
  "log_error_from out err =
     (case out of
        Response st body \<Rightarrow>
          status_code err = st \<and> \<not> (200 \<le> st \<and> st < 300) \<and> code err = LOG_ERROR
      | TimeoutException msg \<Rightarrow> status_code err = 0 \<and> code err = NETWORK_ERROR
      | RequestError msg \<Rightarrow> status_code err = 0 \<and> code err = NETWORK_ERROR)"

lemma client_error_from:
  "400 \<le> st \<Longrightarrow> st < 500 \<Longrightarrow> client_error st body = Raised err \<Longrightarrow>
     fetch_error_from (Response st body) err"
  by (auto simp: client_error_def fetch_error_from_def split: option.splits json.splits if_splits)

text \<open>
  An error that leaves the loop is the fallback, when the loop has not run and nothing was
  recorded, or else is made of the last exchange.
\<close>

lemma attempts_error:
  "attempts cl e req n a le w = (Inl (Raised err), w') \<Longrightarrow>
   (case le of None \<Rightarrow> True
      | Some err0 \<Rightarrow> 0 < calls w \<and> fetch_error_from (transport e (calls w - 1) req) err0) \<Longrightarrow>
   (n = 0 \<and> le = None \<and> err = retry_exhausted \<and> w' = w)
   \<or> (calls w \<le> calls w' \<and> (le = None \<longrightarrow> calls w < calls w') \<and> 0 < calls w'
       \<and> fetch_error_from (transport e (calls w' - 1) req) err)"
proof (induction n arbitrary: a le w)
  case 0
  then show ?case by (cases le) auto
next
  case (Suc n)
  let ?w0 = "w\<lparr>calls := calls w + 1\<rparr>"
  obtain r w1 where wait: "wait_before_retry cl e a ?w0 = (r, w1)"
    by (cases "wait_before_retry cl e a ?w0")
  have "calls (snd (r, w1)) = calls ?w0"
    unfolding wait [symmetric] by (rule calls_wait)
  then have cw: "calls w1 = calls w + 1" by simp
  have "fst (r, w1) \<noteq> Inl (Raised err)"
    unfolding wait [symmetric] by (rule wait_not_raised)
  then have nr: "r \<noteq> Inl (Raised err)" by simp
  have retry: ?case
    if run: "(case r of Inl x \<Rightarrow> (Inl x, w1)
                | Inr u \<Rightarrow> attempts cl e req n (Suc a) (Some err1) w1) = (Inl (Raised err), w')"
      and from1: "fetch_error_from (transport e (calls w) req) err1" for err1
  proof (cases r)
    case (Inl x)
    with run nr show ?thesis by simp
  next
    case (Inr u)
    with run have step: "attempts cl e req n (Suc a) (Some err1) w1 = (Inl (Raised err), w')"
      by simp
    have inv: "case Some err1 of None \<Rightarrow> True
      | Some err0 \<Rightarrow> 0 < calls w1 \<and> fetch_error_from (transport e (calls w1 - 1) req) err0"
      using from1 cw by simp
    from Suc.IH [OF step inv] cw show ?thesis by auto
  qed
  show ?case
  proof (cases "transport e (calls w) req")
    case (Response st body)
    show ?thesis
    proof (cases "400 \<le> st \<and> st < 500")
      case True
      with Suc.prems(1) Response have ce: "client_error st body = Raised err" and "w' = ?w0"
        by (simp_all add: Let_def)
      with True Response client_error_from [of st body err] show ?thesis by simp
    next
      case c4: False
      show ?thesis
      proof (cases "200 \<le> st \<and> st < 300")
        case True
        with c4 Suc.prems(1) Response show ?thesis by (auto simp: Let_def split: option.splits)
      next
        case False
        from c4 False Suc.prems(1) Response wait
        have run: "(case r of Inl x \<Rightarrow> (Inl x, w1)
                | Inr u \<Rightarrow> attempts cl e req n (Suc a) (Some (server_error st)) w1)
            = (Inl (Raised err), w')"
          by (auto simp: Let_def)
        from c4 False Response
        have "fetch_error_from (transport e (calls w) req) (server_error st)"
          by (auto simp: fetch_error_from_def server_error_def)
        from retry [OF run this] show ?thesis .
      qed
    qed
  next
    case (TimeoutException msg)
    with Suc.prems(1) have "err = timeout_error cl" "w' = ?w0" by (simp_all add: Let_def)
    with TimeoutException show ?thesis by (simp add: fetch_error_from_def timeout_error_def)
  next
    case (RequestError msg)
    from Suc.prems(1) RequestError wait
    have run: "(case r of Inl x \<Rightarrow> (Inl x, w1)
            | Inr u \<Rightarrow> attempts cl e req n (Suc a) (Some (network_error msg)) w1)
        = (Inl (Raised err), w')"
      by (simp add: Let_def)
    from RequestError
    have "fetch_error_from (transport e (calls w) req) (network_error msg)"
      by (simp add: fetch_error_from_def network_error_def)
    from retry [OF run this] show ?thesis .
  qed
qed

lemma make_request_error:
  assumes "make_request cl e m path ps js w = (Inl (Raised err), w')"
  shows "(retries cl \<le> 0 \<and> status_code err = 500 \<and> code err = RETRY_EXHAUSTED \<and> w' = w)
   \<or> (calls w < calls w'
       \<and> fetch_error_from (transport e (calls w' - 1) (build_request cl m path ps js)) err)"
proof -
  from assms have run: "attempts cl e (build_request cl m path ps js) (nat (retries cl)) 0 None w
      = (Inl (Raised err), w')"
    by (simp add: make_request_def)
  from attempts_error [OF run] show ?thesis by (auto simp: retry_exhausted_def)
qed

lemma from_dict_not_raised: "from_dict data \<noteq> Inl (Raised err)"
  by (auto simp: from_dict_def split: json.splits option.splits)

lemma get_prompt_error:
  assumes a: "get_prompt cl e k version w = (Inl (Raised err), w')"
  shows "(status_code err = 400 \<and> code err = INVALID_INPUT \<and> w' = w)
   \<or> (retries cl \<le> 0 \<and> status_code err = 500 \<and> code err = RETRY_EXHAUSTED \<and> w' = w)
   \<or> (calls w < calls w'
       \<and> fetch_error_from (transport e (calls w' - 1)
            (build_request cl ''GET'' ''/api/prompts'' (Some (prompt_params k version)) None)) err)"
proof (cases "k = [] \<or> 256 < length k \<or> (case version of None \<Rightarrow> False | Some v \<Rightarrow> v < 1)")
  case True
  with a show ?thesis
    by (auto simp: get_prompt_def invalid_input_def split: if_splits)
next
  case False
  obtain r w1 where m: "make_request cl e ''GET'' ''/api/prompts''
      (Some (prompt_params k version)) None w = (r, w1)"
    by (cases "make_request cl e ''GET'' ''/api/prompts'' (Some (prompt_params k version)) None w")
  show ?thesis
  proof (cases r)
    case (Inl x)
    with a False m have "x = Raised err" "w1 = w'" by (simp_all add: get_prompt_def)
    with m Inl make_request_error [of cl e "''GET''" "''/api/prompts''"
        "Some (prompt_params k version)" None w err w']
    show ?thesis by simp
  next
    case (Inr data)
    with a False m from_dict_not_raised [of data err] show ?thesis
      by (simp add: get_prompt_def)
  qed
qed

lemma log_response_error: "log_response out = Inl (Raised err) \<Longrightarrow> log_error_from out err"
  by (cases out)
    (auto simp: log_response_def log_error_from_def split: if_splits option.splits json.splits)

lemma log_result_proj:
  "snd (snd (logger_log lg uuid post role content model input_tokens output_tokens duration_ms
       metadata ov))
     = log_response (post (fst (snd (logger_log lg uuid post role content model input_tokens
         output_tokens duration_ms metadata ov))))"
  unfolding logger_log_def Let_def split_beta by (simp only: fst_conv snd_conv)

lemma log_result:
  "logger_log lg uuid post role content model input_tokens output_tokens duration_ms metadata ov
     = (lg', req, r) \<Longrightarrow> r = log_response (post req)"
  using log_result_proj [of lg uuid post role content model input_tokens output_tokens
    duration_ms metadata ov] by simp

lemma log_error:
  "logger_log lg uuid post role content model input_tokens output_tokens duration_ms metadata ov
     = (lg', req, Inl (Raised err)) \<Longrightarrow> log_error_from (post req) err"
  by (drule log_result) (auto dest: log_response_error [OF sym])

lemma resolve_api_key_error:
  "resolve_api_key environ k = Inl (Raised err) \<Longrightarrow>
     status_code err = 401 \<and> code err = MISSING_API_KEY"
  by (auto simp: resolve_api_key_def Let_def split: if_splits)

lemma new_client_error:
  "new_client environ ak bu t n rp = Inl (Raised err) \<Longrightarrow>
     status_code err = 401 \<and> code err = MISSING_API_KEY"
  by (cases "resolve_api_key environ ak")
    (auto simp: new_client_def dest: resolve_api_key_error)

lemma new_logger_error:
  "new_logger environ ak bu src rp t = Inl (Raised err) \<Longrightarrow>
     status_code err = 401 \<and> code err = MISSING_API_KEY"
  by (cases "resolve_api_key environ ak")
    (auto simp: new_logger_def dest: resolve_api_key_error)

text \<open>
  Claim C9, amended. Every \<^verbatim>\<open>ForPromptError\<close> raised by the executor, by \<^verbatim>\<open>get_prompt\<close>, by
  \<^verbatim>\<open>log\<close> or by the two constructors carries one kind of the enumeration, a message and
  an integer status. An error made of an HTTP response (\<^verbatim>\<open>PROMPT_NOT_FOUND\<close> for 404,
  \<^verbatim>\<open>API_ERROR\<close> for another 4xx, \<^verbatim>\<open>SERVER_ERROR\<close> for a response that is neither 2xx nor 4xx,
  \<^verbatim>\<open>LOG_ERROR\<close> for a response to a log that is not 2xx) carries the status of that
  response, which is the response to the last call made. The other errors carry a
  constant: 0 for \<^verbatim>\<open>NETWORK_ERROR\<close>, but 408 for \<^verbatim>\<open>TIMEOUT\<close>, 500 for \<^verbatim>\<open>RETRY_EXHAUSTED\<close>, 400
  for \<^verbatim>\<open>INVALID_INPUT\<close> and 401 for \<^verbatim>\<open>MISSING_API_KEY\<close>.
\<close>

theorem error_status_by_kind:
  "(make_request cl e m path ps js w = (Inl (Raised err), w') \<longrightarrow>
      (retries cl \<le> 0 \<and> status_code err = 500 \<and> code err = RETRY_EXHAUSTED \<and> w' = w)
      \<or> (calls w < calls w'
          \<and> fetch_error_from (transport e (calls w' - 1) (build_request cl m path ps js)) err))
   \<and> (get_prompt cl e k version w = (Inl (Raised err), w') \<longrightarrow>
      (status_code err = 400 \<and> code err = INVALID_INPUT \<and> w' = w)
      \<or> (retries cl \<le> 0 \<and> status_code err = 500 \<and> code err = RETRY_EXHAUSTED \<and> w' = w)
      \<or> (calls w < calls w'
          \<and> fetch_error_from (transport e (calls w' - 1)
               (build_request cl ''GET'' ''/api/prompts'' (Some (prompt_params k version)) None))
               err))
   \<and> (logger_log lg uuid post role content model input_tokens output_tokens duration_ms
         metadata ov = (lg', req, Inl (Raised err)) \<longrightarrow> log_error_from (post req) err)
   \<and> (new_client environ ak bu t n rp = Inl (Raised err) \<longrightarrow>
        status_code err = 401 \<and> code err = MISSING_API_KEY)
   \<and> (new_logger environ ak bu src rp t = Inl (Raised err) \<longrightarrow>
        status_code err = 401 \<and> code err = MISSING_API_KEY)"
proof (intro conjI impI)
  show "(retries cl \<le> 0 \<and> status_code err = 500 \<and> code err = RETRY_EXHAUSTED \<and> w' = w)
      \<or> (calls w < calls w'
          \<and> fetch_error_from (transport e (calls w' - 1) (build_request cl m path ps js)) err)"
    if "make_request cl e m path ps js w = (Inl (Raised err), w')"
    using that by (rule make_request_error)
  show "(status_code err = 400 \<and> code err = INVALID_INPUT \<and> w' = w)
      \<or> (retries cl \<le> 0 \<and> status_code err = 500 \<and> code err = RETRY_EXHAUSTED \<and> w' = w)
      \<or> (calls w < calls w'
          \<and> fetch_error_from (transport e (calls w' - 1)
               (build_request cl ''GET'' ''/api/prompts'' (Some (prompt_params k version)) None))
               err)"
    if "get_prompt cl e k version w = (Inl (Raised err), w')"
    using that by (rule get_prompt_error)
  show "log_error_from (post req) err"
    if "logger_log lg uuid post role content model input_tokens output_tokens duration_ms
         metadata ov = (lg', req, Inl (Raised err))"
    using that by (rule log_error)
  show "status_code err = 401" "code err = MISSING_API_KEY"
    if "new_client environ ak bu t n rp = Inl (Raised err)"
    using that by (auto dest: new_client_error)
  show "status_code err = 401" "code err = MISSING_API_KEY"
    if "new_logger environ ak bu src rp t = Inl (Raised err)"
    using that by (auto dest: new_logger_error)
qed

definition demo_logger :: logger where
  "demo_logger = \<lparr>logger_api_key = ''fp_proj_xxx'', logger_base_url = DEFAULT_BASE_URL,
     source = ''python-sdk'', logger_redact_pii_enabled = True, logger_timeout = ''30.0'',
     trace_id = Some ''trace-1'', prompt_key = Some ''my-prompt'', trace_version_number = None\<rparr>"

definition failing_post :: "request \<Rightarrow> outcome" where
  "failing_post req = Response 500 None"

text \<open>
  Claim C9 as stated fails: the error of a timeout has no HTTP response behind it and
  carries the status 408, and the error raised when no attempt is configured carries 500.
\<close>

theorem status_zero_counterexample:
  "make_request demo_client timeout_env ''GET'' ''/api/prompts'' None None world0
     = (Inl (Raised (ForPromptError (JStr ''Request timeout after 30.0s'') 408 TIMEOUT)),
        \<lparr>calls = 1, sleeps = [], draws = 0\<rparr>)
   \<and> make_request no_retry_client timeout_env ''GET'' ''/api/prompts'' None None world0
     = (Inl (Raised (ForPromptError (JStr ''Request failed after retries'') 500 RETRY_EXHAUSTED)),
        world0)"
proof -
  have n: "nat (retries demo_client) = Suc (Suc (Suc 0))" by (simp add: demo_client_def)
  have z: "nat (retries no_retry_client) = 0" by (simp add: no_retry_client_def)
  show ?thesis
    unfolding make_request_def n z
    by (simp add: timeout_env_def world0_def timeout_error_def demo_client_def
        retry_exhausted_def)
qed

lemma failing_run:
  "get_prompt demo_client failing_env ''my-prompt'' None world0
     = (Inl (Raised (server_error 500)),
        \<lparr>calls = 3, sleeps = [backoff_delay 0 0, backoff_delay 1 0], draws = 2\<rparr>)"
proof -
  have n: "nat (retries demo_client) = Suc (Suc (Suc 0))" by (simp add: demo_client_def)
  have s0: "int 0 < retries demo_client - 1" "(0::nat) < 1024" by (simp_all add: demo_client_def)
  have s1: "int (Suc 0) < retries demo_client - 1" "Suc 0 < 1024"
    by (simp_all add: demo_client_def)
  have s2: "\<not> int (Suc (Suc 0)) < retries demo_client - 1" by (simp add: demo_client_def)
  have "make_request demo_client failing_env ''GET'' ''/api/prompts''
      (Some (prompt_params ''my-prompt'' None)) None world0
     = (Inl (Raised (server_error 500)),
        \<lparr>calls = 3, sleeps = [backoff_delay 0 0, backoff_delay 1 0], draws = 2\<rparr>)"
    unfolding make_request_def n
    by (simp add: failing_env_def world0_def
        wait_sleeps [OF s0] wait_sleeps [OF s1] wait_last [OF s2])
  then show ?thesis by (simp add: get_prompt_def)
qed

theorem error_status_by_kind_witness:
  "make_request demo_client timeout_env ''GET'' ''/api/prompts'' None None world0
     = (Inl (Raised (timeout_error demo_client)), world0\<lparr>calls := 1\<rparr>)
   \<and> fetch_error_from (TimeoutException ''timed out'') (timeout_error demo_client)
   \<and> status_code (timeout_error demo_client) = 408
   \<and> get_prompt demo_client failing_env ''my-prompt'' None world0
     = (Inl (Raised (server_error 500)),
        \<lparr>calls = 3, sleeps = [backoff_delay 0 0, backoff_delay 1 0], draws = 2\<rparr>)
   \<and> fetch_error_from (Response 500 None) (server_error 500)
   \<and> status_code (server_error 500) = 500
   \<and> snd (snd (logger_log demo_logger ''u'' failing_post ''user'' ''hi'' None None None None None
         (Some False)))
     = Inl (Raised (ForPromptError (JStr ''Failed to log'') 500 LOG_ERROR))
   \<and> log_error_from (Response 500 None) (ForPromptError (JStr ''Failed to log'') 500 LOG_ERROR)
   \<and> new_client Map.empty None None ''30.0'' 3 True
     = Inl (Raised (ForPromptError
         (JStr ''API key is required. Set FORPROMPT_API_KEY environment variable or pass api_key parameter.'')
         401 MISSING_API_KEY))
   \<and> new_logger Map.empty None None ''python-sdk'' True ''30.0''
     = Inl (Raised (ForPromptError
         (JStr ''API key is required. Set FORPROMPT_API_KEY environment variable or pass api_key parameter.'')
         401 MISSING_API_KEY))"
proof -
  let ?missing = "ForPromptError
         (JStr ''API key is required. Set FORPROMPT_API_KEY environment variable or pass api_key parameter.'')
         401 MISSING_API_KEY"
  let ?logerr = "ForPromptError (JStr ''Failed to log'') 500 LOG_ERROR"
  let ?L = "logger_log demo_logger ''u'' failing_post ''user'' ''hi'' None None None None None
         (Some False)"
  let ?w3 = "\<lparr>calls = 3, sleeps = [backoff_delay 0 0, backoff_delay 1 0], draws = 2\<rparr>"
  have n: "nat (retries demo_client) = Suc (Suc (Suc 0))" by (simp add: demo_client_def)
  have a: "make_request demo_client timeout_env ''GET'' ''/api/prompts'' None None world0
     = (Inl (Raised (timeout_error demo_client)), world0\<lparr>calls := 1\<rparr>)"
    unfolding make_request_def n by (simp add: timeout_env_def world0_def)
  note b = failing_run
  have c3: "snd (snd ?L) = Inl (Raised ?logerr)"
    by (simp add: logger_log_def Let_def split_beta failing_post_def log_response_def dict_get_def)
  then have c: "?L = (fst ?L, fst (snd ?L), Inl (Raised ?logerr))"
    by (metis prod.collapse)
  have d: "new_client Map.empty None None ''30.0'' 3 True = Inl (Raised ?missing)"
    by (simp add: new_client_def resolve_api_key_def or_else_def)
  have e: "new_logger Map.empty None None ''python-sdk'' True ''30.0'' = Inl (Raised ?missing)"
    by (simp add: new_logger_def resolve_api_key_def or_else_def)
  have "(retries demo_client \<le> 0 \<and> status_code (timeout_error demo_client) = 500
          \<and> code (timeout_error demo_client) = RETRY_EXHAUSTED \<and> world0\<lparr>calls := 1\<rparr> = world0)
      \<or> (calls world0 < calls (world0\<lparr>calls := 1\<rparr>)
          \<and> fetch_error_from (transport timeout_env (calls (world0\<lparr>calls := 1\<rparr>) - 1)
               (build_request demo_client ''GET'' ''/api/prompts'' None None))
               (timeout_error demo_client))"
    by (rule error_status_by_kind [THEN conjunct1, THEN mp, OF a])
  then have k1: "fetch_error_from (TimeoutException ''timed out'') (timeout_error demo_client)"
    by (simp add: demo_client_def timeout_env_def)
  have "(status_code (server_error 500) = 400 \<and> code (server_error 500) = INVALID_INPUT
          \<and> ?w3 = world0)
      \<or> (retries demo_client \<le> 0 \<and> status_code (server_error 500) = 500
          \<and> code (server_error 500) = RETRY_EXHAUSTED \<and> ?w3 = world0)
      \<or> (calls world0 < calls ?w3
          \<and> fetch_error_from (transport failing_env (calls ?w3 - 1)
               (build_request demo_client ''GET'' ''/api/prompts''
                  (Some (prompt_params ''my-prompt'' None)) None))
               (server_error 500))"
    by (rule error_status_by_kind [THEN conjunct2, THEN conjunct1, THEN mp, OF b])
  then have k2: "fetch_error_from (Response 500 None) (server_error 500)"
    by (simp add: demo_client_def failing_env_def server_error_def)
  have "log_error_from (failing_post (fst (snd ?L))) ?logerr"
    by (rule error_status_by_kind
        [THEN conjunct2, THEN conjunct2, THEN conjunct1, THEN mp, OF c])
  then have k3: "log_error_from (Response 500 None) ?logerr"
    by (simp add: failing_post_def)
  have k4: "status_code ?missing = 401 \<and> code ?missing = MISSING_API_KEY"
    by (rule error_status_by_kind
        [THEN conjunct2, THEN conjunct2, THEN conjunct2, THEN conjunct1, THEN mp, OF d])
  have k5: "status_code ?missing = 401 \<and> code ?missing = MISSING_API_KEY"
    by (rule error_status_by_kind
        [THEN conjunct2, THEN conjunct2, THEN conjunct2, THEN conjunct2, THEN mp, OF e])
  from a b c3 d e k1 k2 k3 k4 k5 show ?thesis
    by (simp add: timeout_error_def server_error_def)
qed

section \<open>Bulk fetch\<close>

lemma concat_batches: "0 < n \<Longrightarrow> concat (batches n xs) = xs"
proof (induction n xs rule: batches.induct)
  case (1 n xs)
  show ?case
  proof (cases "xs = []")
    case True
    then show ?thesis by (subst batches.simps) simp
  next
    case False
    with "1.prems" "1.IH" have "concat (batches n (drop n xs)) = drop n xs" by simp
    with False "1.prems" show ?thesis
      by (subst batches.simps) simp
  qed
qed

lemma fetch_batch_append:
  "fetch_batch cl e v (xs @ ys) result w =
     (case fetch_batch cl e v xs result w of
        (Inr result', w') \<Rightarrow> fetch_batch cl e v ys result' w'
      | (Inl err, w') \<Rightarrow> (Inl err, w'))"
proof (induction xs arbitrary: result w)
  case Nil
  show ?case by simp
next
  case (Cons k ks)
  show ?case
    by (simp add: Cons.IH split: prod.splits sum.splits exn.splits)
qed

lemma fetch_batches_concat:
  "fetch_batches cl e v bs result w = fetch_batch cl e v (concat bs) result w"
proof (induction bs arbitrary: result w)
  case Nil
  show ?case by simp
next
  case (Cons b bs)
  show ?case
    by (simp add: Cons.IH fetch_batch_append split: prod.splits sum.splits)
qed

lemma get_prompts_fetch_batch:
  "get_prompts cl e keys version w = fetch_batch cl e version keys [] w"
  by (simp add: get_prompts_def fetch_batches_concat concat_batches CONCURRENCY_LIMIT_def)

text \<open>Every fetch of a key of \<open>ks\<close> succeeds when the key is in \<open>S\<close> and raises a \<^verbatim>\<open>ForPromptError\<close> otherwise.\<close>

definition fetches_split ::
  "client \<Rightarrow> env \<Rightarrow> int option \<Rightarrow> string list \<Rightarrow> string set \<Rightarrow> bool" where
  "fetches_split cl e version ks S =
     (\<forall>k\<in>set ks. \<forall>w.
        if k \<in> S then (\<exists>p w'. get_prompt cl e k version w = (Inr p, w'))
        else (\<exists>err w'. get_prompt cl e k version w = (Inl (Raised err), w')))"

lemma fetch_batch_keys:
  "fetches_split cl e version ks S \<Longrightarrow>
     \<exists>res w'. fetch_batch cl e version ks result w = (Inr res, w')
       \<and> fst ` set res = fst ` set result \<union> (set ks \<inter> S)"
proof (induction ks arbitrary: result w)
  case Nil
  show ?case by simp
next
  case (Cons k ks)
  from Cons.prems have rest: "fetches_split cl e version ks S"
    by (simp add: fetches_split_def)
  show ?case
  proof (cases "k \<in> S")
    case True
    with Cons.prems obtain p w1 where g: "get_prompt cl e k version w = (Inr p, w1)"
      unfolding fetches_split_def by (metis list.set_intros(1))
    from Cons.IH [OF rest, of "AList.update k p result" w1] obtain res w' where
      "fetch_batch cl e version ks (AList.update k p result) w1 = (Inr res, w')"
      "fst ` set res = fst ` set (AList.update k p result) \<union> (set ks \<inter> S)"
      by blast
    with g True show ?thesis by (auto simp: dom_update)
  next
    case False
    with Cons.prems obtain err w1 where g: "get_prompt cl e k version w = (Inl (Raised err), w1)"
      unfolding fetches_split_def by (metis list.set_intros(1))
    from Cons.IH [OF rest, of result w1] obtain res w' where
      "fetch_batch cl e version ks result w1 = (Inr res, w')"
      "fst ` set res = fst ` set result \<union> (set ks \<inter> S)"
      by blast
    with g False show ?thesis by auto
  qed
qed

text \<open>
  Claim C7. When the fetch of every key of the list either succeeds (the keys in \<open>S\<close>) or
  raises a \<^verbatim>\<open>ForPromptError\<close> of any kind (the others), \<^verbatim>\<open>get_prompts\<close> raises nothing and
  returns a dictionary whose keys are exactly the keys of the list that are in \<open>S\<close>.
\<close>

theorem get_prompts_partial_failure:
  assumes "\<forall>k\<in>set keys. \<forall>w.
        if k \<in> S then (\<exists>p w'. get_prompt cl e k version w = (Inr p, w'))
        else (\<exists>err w'. get_prompt cl e k version w = (Inl (Raised err), w'))"
  shows "\<exists>result w'. get_prompts cl e keys version w = (Inr result, w')
           \<and> fst ` set result = set keys \<inter> S"
proof -
  from assms have "fetches_split cl e version keys S" by (simp add: fetches_split_def)
  from fetch_batch_keys [OF this, of "[]" w] show ?thesis
    by (simp add: get_prompts_fetch_batch)
qed


definition picky_env :: env where
  "picky_env = \<lparr>transport = (\<lambda>n req.
       if params req = Some [(''key'', ''k3'')] \<or> params req = Some [(''key'', ''k5'')]
       then Response 404 (Some (JObj [(''error'', JStr ''not found'')]))
       else Response 200 (Some demo_body)),
     random = (\<lambda>n. 0)\<rparr>"

definition seven_keys :: "string list" where
  "seven_keys = [''k1'', ''k2'', ''k3'', ''k4'', ''k5'', ''k6'', ''k7'']"

lemma picky_found:
  "k \<noteq> ''k3'' \<Longrightarrow> k \<noteq> ''k5'' \<Longrightarrow> k \<noteq> [] \<Longrightarrow> length k \<le> 256 \<Longrightarrow>
     get_prompt demo_client picky_env k None w = (Inr demo_prompt, w\<lparr>calls := calls w + 1\<rparr>)"
proof -
  assume a: "k \<noteq> ''k3''" "k \<noteq> ''k5''" "k \<noteq> []" "length k \<le> 256"
  have n: "nat (retries demo_client) = Suc (Suc (Suc 0))" by (simp add: demo_client_def)
  have "make_request demo_client picky_env ''GET'' ''/api/prompts''
      (Some (prompt_params k None)) None w = (Inr demo_body, w\<lparr>calls := calls w + 1\<rparr>)"
    unfolding make_request_def n using a(1,2)
    by (simp add: picky_env_def build_request_def prompt_params_def)
  with a(3,4) show ?thesis by (simp add: get_prompt_def from_dict_demo)
qed

lemma picky_missing:
  "k = ''k3'' \<or> k = ''k5'' \<Longrightarrow>
     get_prompt demo_client picky_env k None w
       = (Inl (Raised (ForPromptError (JStr ''not found'') 404 PROMPT_NOT_FOUND)),
          w\<lparr>calls := calls w + 1\<rparr>)"
proof -
  assume a: "k = ''k3'' \<or> k = ''k5''"
  have n: "nat (retries demo_client) = Suc (Suc (Suc 0))" by (simp add: demo_client_def)
  have "make_request demo_client picky_env ''GET'' ''/api/prompts''
      (Some (prompt_params k None)) None w
      = (Inl (Raised (ForPromptError (JStr ''not found'') 404 PROMPT_NOT_FOUND)),
          w\<lparr>calls := calls w + 1\<rparr>)"
    unfolding make_request_def n using a
    by (auto simp: picky_env_def build_request_def prompt_params_def client_error_def
        dict_get_def)
  with a show ?thesis by (auto simp: get_prompt_def)
qed

theorem get_prompts_partial_failure_witness:
  "list_all (\<lambda>k. \<exists>p. fst (get_prompt demo_client picky_env k None world0) = Inr p)
     [''k1'', ''k2'', ''k4'', ''k6'', ''k7'']
   \<and> list_all (\<lambda>k. \<exists>err. fst (get_prompt demo_client picky_env k None world0) = Inl (Raised err))
     [''k3'', ''k5'']
   \<and> (\<exists>result w'. get_prompts demo_client picky_env seven_keys None world0 = (Inr result, w')
         \<and> fst ` set result = {''k1'', ''k2'', ''k4'', ''k6'', ''k7''})"
proof -
  have h: "\<forall>k\<in>set seven_keys. \<forall>w.
        if k \<in> {''k1'', ''k2'', ''k4'', ''k6'', ''k7''}
        then (\<exists>p w'. get_prompt demo_client picky_env k None w = (Inr p, w'))
        else (\<exists>err w'. get_prompt demo_client picky_env k None w = (Inl (Raised err), w'))"
    by (simp add: seven_keys_def picky_found picky_missing)
  have s: "set seven_keys \<inter> {''k1'', ''k2'', ''k4'', ''k6'', ''k7''}
      = {''k1'', ''k2'', ''k4'', ''k6'', ''k7''}"
    by (auto simp: seven_keys_def)
  from get_prompts_partial_failure [OF h, of world0] s show ?thesis
    by (simp add: picky_found picky_missing)
qed

end
